theory Spec2Isabelle
  imports Complex_Main "HOL-Library.Word"
begin

section \<open>Python values\<close>

text \<open>
  Python exceptions are values of the type \<open>error\<close>; a function that can raise returns
  \<open>error + 'a\<close> with \<open>Inl\<close> for the exception, and \<open>bind_err\<close> passes the first exception
  on. Python's unbounded integers are \<open>int\<close>.
\<close>

datatype error = ValueError | StructError | IndexError | ZeroDivisionError | OverflowError
  | MemoryError | NameError

definition bind_err :: "error + 'a \<Rightarrow> ('a \<Rightarrow> error + 'b) \<Rightarrow> error + 'b" where
  "bind_err m f = (case m of Inl e \<Rightarrow> Inl e | Inr x \<Rightarrow> f x)"

type_synonym byte = "8 word"

text \<open>The slice \<open>data[a:b]\<close> of Python for \<open>0 \<le> a \<le> b\<close>.\<close>

definition slice :: "nat \<Rightarrow> nat \<Rightarrow> 'a list \<Rightarrow> 'a list" where
  "slice a b xs = take (b - a) (drop a xs)"

subsection \<open>Floats\<close>

text \<open>
  A Python \<open>float\<close> is an IEEE 754 binary64 number: a finite one is the real number it
  denotes (\<open>Fin\<close>; the two zeros are one value, as they are for \<open>==\<close>), the others are the
  two infinities and \<open>nan\<close>. An arithmetic operation computes the exact result and rounds it
  to the nearest float, ties to the even significand (\<open>float_round\<close>): a float has a
  significand of 53 bits and an exponent of at least \<open>-1074\<close> for its last bit, and a
  rounded result of magnitude \<open>2^1024\<close> or more is an infinity.
\<close>

datatype pyfloat = Fin real | PosInf | NegInf | NaN

text \<open>\<open>int.bit_length\<close> of a natural number.\<close>

fun bit_length :: "nat \<Rightarrow> nat" where
  "bit_length n = (if n = 0 then 0 else Suc (bit_length (n div 2)))"

declare bit_length.simps [simp del]

text \<open>The exponent \<open>k\<close> with \<open>2^k \<le> x < 2^(k+1)\<close> of a positive real.\<close>

definition floor_log2 :: "real \<Rightarrow> int" where
  "floor_log2 x =
     (if 1 \<le> x then int (bit_length (nat \<lfloor>x\<rfloor>)) - 1
      else - int (bit_length (nat (\<lceil>1 / x\<rceil> - 1))))"

definition pow2 :: "int \<Rightarrow> real" where
  "pow2 e = (if 0 \<le> e then 2 ^ nat e else 1 / 2 ^ nat (- e))"

definition round_half_even :: "real \<Rightarrow> int" where
  "round_half_even x =
     (let n = \<lfloor>x\<rfloor>; r = x - of_int n
      in if r < 1 / 2 then n else if 1 / 2 < r then n + 1
         else if even n then n else n + 1)"

definition float_round :: "real \<Rightarrow> pyfloat" where
  "float_round x =
     (if x = 0 then Fin 0
      else let e = max (floor_log2 \<bar>x\<bar> - 52) (- 1074);
               y = of_int (round_half_even (x / pow2 e)) * pow2 e
           in if 2 ^ 1024 \<le> y then PosInf
              else if y \<le> - (2 ^ 1024) then NegInf
              else Fin y)"

text \<open>\<open>a + b\<close>, \<open>a * b\<close> and \<open>a / b\<close> on floats; only the division raises.\<close>

definition float_add :: "pyfloat \<Rightarrow> pyfloat \<Rightarrow> pyfloat" where
  "float_add a b =
     (case (a, b) of
        (Fin x, Fin y) \<Rightarrow> float_round (x + y)
      | (NaN, _) \<Rightarrow> NaN
      | (_, NaN) \<Rightarrow> NaN
      | (PosInf, NegInf) \<Rightarrow> NaN
      | (NegInf, PosInf) \<Rightarrow> NaN
      | (PosInf, _) \<Rightarrow> PosInf
      | (NegInf, _) \<Rightarrow> NegInf
      | (Fin x, PosInf) \<Rightarrow> PosInf
      | (Fin x, NegInf) \<Rightarrow> NegInf)"

definition float_mul :: "pyfloat \<Rightarrow> pyfloat \<Rightarrow> pyfloat" where
  "float_mul a b =
     (case (a, b) of
        (Fin x, Fin y) \<Rightarrow> float_round (x * y)
      | (NaN, _) \<Rightarrow> NaN
      | (_, NaN) \<Rightarrow> NaN
      | (Fin x, PosInf) \<Rightarrow> (if x = 0 then NaN else if 0 < x then PosInf else NegInf)
      | (Fin x, NegInf) \<Rightarrow> (if x = 0 then NaN else if 0 < x then NegInf else PosInf)
      | (PosInf, Fin y) \<Rightarrow> (if y = 0 then NaN else if 0 < y then PosInf else NegInf)
      | (NegInf, Fin y) \<Rightarrow> (if y = 0 then NaN else if 0 < y then NegInf else PosInf)
      | (PosInf, PosInf) \<Rightarrow> PosInf
      | (NegInf, NegInf) \<Rightarrow> PosInf
      | (PosInf, NegInf) \<Rightarrow> NegInf
      | (NegInf, PosInf) \<Rightarrow> NegInf)"

definition float_truediv :: "pyfloat \<Rightarrow> pyfloat \<Rightarrow> error + pyfloat" where
  "float_truediv a b =
     (if b = Fin 0 then Inl ZeroDivisionError
      else Inr (case (a, b) of
                  (Fin x, Fin y) \<Rightarrow> float_round (x / y)
                | (NaN, _) \<Rightarrow> NaN
                | (_, NaN) \<Rightarrow> NaN
                | (Fin x, _) \<Rightarrow> Fin 0
                | (PosInf, Fin y) \<Rightarrow> (if 0 < y then PosInf else NegInf)
                | (NegInf, Fin y) \<Rightarrow> (if 0 < y then NegInf else PosInf)
                | (_, _) \<Rightarrow> NaN))"


text \<open>
  The conversion of an integer operand to a float, which raises \<open>OverflowError\<close> when the
  integer is too large; the true division \<open>a / b\<close> of two integers, which is rounded once;
  and \<open>int(x)\<close> on a float, which truncates towards zero.
\<close>

definition float_of_int :: "int \<Rightarrow> error + pyfloat" where
  "float_of_int n =
     (case float_round (of_int n) of Fin y \<Rightarrow> Inr (Fin y) | other \<Rightarrow> Inl OverflowError)"


definition py_int :: "pyfloat \<Rightarrow> error + int" where
  "py_int a =
     (case a of
        Fin x \<Rightarrow> Inr (if 0 \<le> x then \<lfloor>x\<rfloor> else \<lceil>x\<rceil>)
      | PosInf \<Rightarrow> Inl OverflowError
      | NegInf \<Rightarrow> Inl OverflowError
      | NaN \<Rightarrow> Inl ValueError)"

section \<open>Record codec (base\_data\_struct.py)\<close>

text \<open>
  \<open>struct.pack('IIIIIIII', ...)\<close>: eight unsigned 32-bit integers in native mode, four bytes
  each and no padding between them; the byte order is taken little-endian (the order of the
  platforms the lab runs on). A value outside \<open>0 .. 2^32 - 1\<close> raises \<open>struct.error\<close>.
\<close>

definition u32_ok :: "int \<Rightarrow> bool" where
  "u32_ok v \<longleftrightarrow> 0 \<le> v \<and> v < 4294967296"

definition bytes_I :: "int \<Rightarrow> byte list" where
  "bytes_I v = [word_of_int v, word_of_int (v div 256),
                word_of_int (v div 65536), word_of_int (v div 16777216)]"

definition unpack_I :: "byte list \<Rightarrow> int" where
  "unpack_I bs = uint (bs ! 0) + 256 * uint (bs ! 1) + 65536 * uint (bs ! 2)
                   + 16777216 * uint (bs ! 3)"

definition struct_pack_8I :: "int list \<Rightarrow> error + byte list" where
  "struct_pack_8I vs =
     (if length vs = 8 \<and> list_all u32_ok vs then Inr (concat (map bytes_I vs))
      else Inl StructError)"

definition struct_unpack_8I :: "byte list \<Rightarrow> error + int list" where
  "struct_unpack_8I data =
     (if length data = 32
      then Inr (map (\<lambda>k. unpack_I (slice (4 * k) (4 * k + 4) data)) [0, 1, 2, 3, 4, 5, 6, 7])
      else Inl StructError)"

text \<open>An order; its price is a float, as the constructor declares it.\<close>

record Order =
  order_id :: int
  customer_id :: int
  product_id :: int
  quantity :: int
  price :: pyfloat
  order_date :: int
  region :: int

definition RECORD_SIZE :: nat where
  "RECORD_SIZE = 32"

text \<open>
  \<open>to_bytes\<close> computes \<open>int(self.price * 100)\<close>, a float product with the float 100.0 cut to
  an integer, before it packs; \<open>from_bytes\<close> computes \<open>fields[4] / 100.0\<close>, the division of
  the float of the integer by 100.0.
\<close>

definition Order_to_bytes :: "Order \<Rightarrow> error + byte list" where
  "Order_to_bytes r =
     bind_err (py_int (float_mul (price r) (Fin 100)))
       (\<lambda>cents. struct_pack_8I [order_id r, customer_id r, product_id r, quantity r,
                                 cents, order_date r, region r, 0])"

definition Order_from_bytes :: "byte list \<Rightarrow> error + Order" where
  "Order_from_bytes data =
     (if length data < RECORD_SIZE then Inl ValueError
      else bind_err (struct_unpack_8I (take RECORD_SIZE data))
        (\<lambda>fs. bind_err (bind_err (float_of_int (fs ! 4)) (\<lambda>c. float_truediv c (Fin 100)))
          (\<lambda>p. Inr \<lparr>order_id = fs ! 0,
                      customer_id = fs ! 1,
                      product_id = fs ! 2,
                      quantity = fs ! 3,
                      price = p,
                      order_date = fs ! 5,
                      region = fs ! 6\<rparr>)))"

section \<open>Page codec (base\_data\_struct.py)\<close>

record DiskPage =
  page_id :: int
  orders :: "Order list"

definition PAGE_SIZE :: nat where
  "PAGE_SIZE = 4096"

definition RECORDS_PER_PAGE :: nat where
  "RECORDS_PER_PAGE = PAGE_SIZE div RECORD_SIZE"

text \<open>
  The slice assignment \<open>data[a:b] = bs\<close> on a bytearray: both bounds are cut to the length
  of \<open>data\<close>, so an assignment past the end appends.
\<close>

definition slice_assign :: "nat \<Rightarrow> nat \<Rightarrow> 'a list \<Rightarrow> 'a list \<Rightarrow> 'a list" where
  "slice_assign a b bs data = take a data @ bs @ drop b data"

text \<open>The loop of \<open>DiskPage.to_bytes\<close> from index \<open>i\<close> on; an order that cannot be packed raises.\<close>

fun write_orders :: "nat \<Rightarrow> Order list \<Rightarrow> byte list \<Rightarrow> error + byte list" where
  "write_orders i [] data = Inr data"
| "write_orders i (ord # rest) data =
     (case Order_to_bytes ord of
        Inl e \<Rightarrow> Inl e
      | Inr order_bytes \<Rightarrow>
          write_orders (i + 1) rest
            (slice_assign (i * RECORD_SIZE) (i * RECORD_SIZE + RECORD_SIZE) order_bytes data))"

definition DiskPage_to_bytes :: "DiskPage \<Rightarrow> error + byte list" where
  "DiskPage_to_bytes pg = write_orders 0 (orders pg) (replicate PAGE_SIZE 0)"

text \<open>
  One slot of \<open>DiskPage.from_bytes\<close>: the orders it appends. \<open>Order.from_bytes\<close> raises
  only \<open>ValueError\<close> and \<open>struct.error\<close>, which the loop catches and skips.
\<close>

definition read_slot :: "byte list \<Rightarrow> nat \<Rightarrow> Order list" where
  "read_slot data i =
     (let record_data = slice (i * RECORD_SIZE) (i * RECORD_SIZE + RECORD_SIZE) data
      in if 4 \<le> length record_data
         then (if unpack_I (take 4 record_data) \<noteq> 0
               then (case Order_from_bytes record_data of
                       Inr ord \<Rightarrow> [ord]
                     | Inl e \<Rightarrow> [])
               else [])
         else [])"

definition DiskPage_from_bytes :: "int \<Rightarrow> byte list \<Rightarrow> error + DiskPage" where
  "DiskPage_from_bytes pid data =
     (if length data \<noteq> PAGE_SIZE then Inl ValueError
      else Inr \<lparr>page_id = pid,
                orders = concat (map (read_slot data) [0..<RECORDS_PER_PAGE])\<rparr>)"

section \<open>Disk manager (disk\_manager.py)\<close>

text \<open>
  The backing file is the list of its bytes. What the operating system and the clock do
  during one I/O call is an input of the model: whether the call raises \<open>OSError\<close>
  (\<open>io_fault\<close>, raised at the first system call of the operation), whether the zero bytes
  that extend a short file can be allocated (\<open>io_nomem\<close>: if not, \<open>MemoryError\<close>), and the
  time \<open>perf_counter\<close> measures for the call (\<open>io_elapsed\<close>, a float).
\<close>

record io_outcome =
  io_fault :: bool
  io_nomem :: bool
  io_elapsed :: pyfloat

record DiskManager =
  file_contents :: "byte list"
  read_count :: nat
  write_count :: nat
  total_read_time :: pyfloat
  total_write_time :: pyfloat
  bytes_read :: nat
  bytes_written :: nat

definition new_DiskManager :: "byte list \<Rightarrow> DiskManager" where
  "new_DiskManager contents =
     \<lparr>file_contents = contents, read_count = 0, write_count = 0, total_read_time = Fin 0,
      total_write_time = Fin 0, bytes_read = 0, bytes_written = 0\<rparr>"

text \<open>
  \<open>f.seek\<close> takes an offset that fits a signed 64-bit file offset, and raises \<open>ValueError\<close>
  on any other; a sequence repetition \<open>b'\0' * n\<close> takes a count that fits a signed 64-bit
  size, and raises \<open>OverflowError\<close> on any other.
\<close>

definition off_t_ok :: "int \<Rightarrow> bool" where
  "off_t_ok n \<longleftrightarrow> - (2 ^ 63) \<le> n \<and> n < 2 ^ 63"

definition ssize_t_ok :: "int \<Rightarrow> bool" where
  "ssize_t_ok n \<longleftrightarrow> n < 2 ^ 63"

text \<open>
  \<open>read_page\<close> returns a page, or \<open>None\<close> (\<open>Inr None\<close>) on a short read and on an
  \<open>OSError\<close>, which a seek to a negative offset raises too. The \<open>ValueError\<close> of a seek to
  an offset that does not fit is not among the exceptions it catches. The counters are
  updated in the branch of the full read only.
\<close>

definition read_page ::
  "io_outcome \<Rightarrow> int \<Rightarrow> DiskManager \<Rightarrow> (error + DiskPage option) \<times> DiskManager" where
  "read_page io pid dm =
     (if io_fault io then (Inr None, dm)
      else if \<not> off_t_ok (pid * int PAGE_SIZE) then (Inl ValueError, dm)
      else if pid < 0 then (Inr None, dm)
      else let data = take PAGE_SIZE (drop (nat pid * PAGE_SIZE) (file_contents dm))
           in if length data = PAGE_SIZE
              then (case DiskPage_from_bytes pid data of
                      Inl e \<Rightarrow> (Inl e, dm)
                    | Inr pg \<Rightarrow>
                        (Inr (Some pg),
                         dm\<lparr>read_count := read_count dm + 1,
                            total_read_time := float_add (total_read_time dm) (io_elapsed io),
                            bytes_read := bytes_read dm + PAGE_SIZE\<rparr>))
              else (Inr None, dm))"

text \<open>
  \<open>write_page\<close> first extends a file that is too short with zero bytes, then seeks and
  writes the page's bytes. It catches \<open>OSError\<close> only: the exceptions of the repetition, of
  the seek and of \<open>to_bytes\<close> leave it. The counters are updated after the write only.
\<close>

definition write_page ::
  "io_outcome \<Rightarrow> DiskPage \<Rightarrow> DiskManager \<Rightarrow> (error + bool) \<times> DiskManager" where
  "write_page io pg dm =
     (if io_fault io then (Inr False, dm)
      else let required_size = (DiskPage.page_id pg + 1) * int PAGE_SIZE;
               current_size = int (length (file_contents dm))
           in if current_size < required_size \<and> \<not> ssize_t_ok (required_size - current_size)
              then (Inl OverflowError, dm)
              else if current_size < required_size \<and> io_nomem io then (Inl MemoryError, dm)
              else let extended =
                         (if current_size < required_size
                          then file_contents dm @ replicate (nat (required_size - current_size)) 0
                          else file_contents dm)
                   in if \<not> off_t_ok (DiskPage.page_id pg * int PAGE_SIZE)
                      then (Inl ValueError, dm\<lparr>file_contents := extended\<rparr>)
                      else if DiskPage.page_id pg < 0
                      then (Inr False, dm\<lparr>file_contents := extended\<rparr>)
                      else (case DiskPage_to_bytes pg of
                              Inl e \<Rightarrow> (Inl e, dm\<lparr>file_contents := extended\<rparr>)
                            | Inr bs \<Rightarrow>
                                (let off = nat (DiskPage.page_id pg) * PAGE_SIZE
                                 in (Inr True,
                                     dm\<lparr>file_contents :=
                                          slice_assign off (off + length bs) bs extended,
                                        write_count := write_count dm + 1,
                                        total_write_time :=
                                          float_add (total_write_time dm) (io_elapsed io),
                                        bytes_written := bytes_written dm + PAGE_SIZE\<rparr>))))"






section \<open>Buffer manager (step03\_with\_buffer\_manager.py)\<close>

text \<open>
  Frame indices, sizes and counters are natural numbers. A stateful method returns its result
  together with the manager it leaves behind, also when it raises: the object outlives the
  exception.
\<close>

record BufferFrame =
  frame_id :: nat
  page :: "DiskPage option"
  page_id :: "int option"
  is_dirty :: bool
  last_accessed :: nat
  access_frequency :: nat
  clock_bit :: bool

definition new_BufferFrame :: "nat \<Rightarrow> BufferFrame" where
  "new_BufferFrame i =
     \<lparr>frame_id = i, page = None, page_id = None, is_dirty = False, last_accessed = 0,
      access_frequency = 0, clock_bit = False\<rparr>"

definition is_free :: "BufferFrame \<Rightarrow> bool" where
  "is_free f \<longleftrightarrow> page f = None"

record BufferManager =
  disk :: DiskManager
  pool_size :: nat
  policy :: string
  frames :: "BufferFrame list"
  page_table :: "int \<rightharpoonup> nat"
  free_frames :: "nat list"
  access_counter :: nat
  clock_hand :: nat
  hits :: nat
  misses :: nat
  evictions :: nat

text \<open>The constructor; a negative \<open>pool_size\<close> would build the empty pool of size 0.\<close>

definition new_BufferManager :: "DiskManager \<Rightarrow> nat \<Rightarrow> string \<Rightarrow> BufferManager" where
  "new_BufferManager disk_manager n pol =
     \<lparr>disk = disk_manager, pool_size = n, policy = pol,
      frames = map new_BufferFrame [0..<n],
      page_table = Map.empty,
      free_frames = [0..<n],
      access_counter = 0, clock_hand = 0, hits = 0, misses = 0, evictions = 0\<rparr>"

text \<open>The I/O outcomes one \<open>get_page\<close> call can meet: at most one write-back and one read.\<close>

record get_page_env =
  on_write :: io_outcome
  on_read :: io_outcome

definition get_free_frame :: "BufferManager \<Rightarrow> nat option \<times> BufferManager" where
  "get_free_frame bm =
     (if free_frames bm \<noteq> []
      then (Some (last (free_frames bm)), bm\<lparr>free_frames := butlast (free_frames bm)\<rparr>)
      else (None, bm))"

definition write_back_and_clear_frame ::
  "io_outcome \<Rightarrow> nat \<Rightarrow> BufferManager \<Rightarrow> (error + unit) \<times> BufferManager" where
  "write_back_and_clear_frame io fid bm =
     (if length (frames bm) \<le> fid then (Inl IndexError, bm)
      else let frame = frames bm ! fid;
               (written, disk') =
                  (case page frame of
                     Some pg \<Rightarrow> (if is_dirty frame then write_page io pg (disk bm)
                                 else (Inr True, disk bm))
                   | None \<Rightarrow> (Inr True, disk bm))
           in case written of
                Inl e \<Rightarrow> (Inl e, bm\<lparr>disk := disk'\<rparr>)
              | Inr ok \<Rightarrow>
                  (Inr (),
                   bm\<lparr>disk := disk',
                      page_table :=
                        (case page_id frame of
                           Some pid \<Rightarrow> (page_table bm)(pid := None)
                         | None \<Rightarrow> page_table bm),
                      frames :=
                        (frames bm)[fid := frame\<lparr>page := None, page_id := None,
                                                  is_dirty := False, access_frequency := 0\<rparr>],
                      evictions := evictions bm + 1\<rparr>))"

definition evict_fifo ::
  "io_outcome \<Rightarrow> BufferManager \<Rightarrow> (error + nat option) \<times> BufferManager" where
  "evict_fifo io bm =
     (case find (\<lambda>frame. page frame \<noteq> None) (frames bm) of
        Some frame \<Rightarrow>
          (case write_back_and_clear_frame io (frame_id frame) bm of
             (Inl e, bm') \<Rightarrow> (Inl e, bm')
           | (Inr u, bm') \<Rightarrow> (Inr (Some (frame_id frame)), bm'))
      | None \<Rightarrow> (Inr None, bm))"

text \<open>
  The loop of \<open>_evict_clock\<close>. An iteration continues the loop only after it has cleared
  the clock bit of the frame under the hand, so the number of set bits is a measure.
\<close>

function evict_clock_loop ::
  "io_outcome \<Rightarrow> nat \<Rightarrow> BufferManager \<Rightarrow> (error + nat option) \<times> BufferManager" where
  "evict_clock_loop io start_hand bm =
     (if length (frames bm) \<le> clock_hand bm then (Inl IndexError, bm)
      else if pool_size bm = 0 then (Inl ZeroDivisionError, bm)
      else let frame = frames bm ! clock_hand bm;
               bm1 = bm\<lparr>clock_hand := (clock_hand bm + 1) mod pool_size bm\<rparr>
           in if is_free frame then (Inr (Some (frame_id frame)), bm1)
              else if clock_bit frame
              then (let bm2 = bm1\<lparr>frames := (frames bm1)[clock_hand bm :=
                                                      frame\<lparr>clock_bit := False\<rparr>]\<rparr>
                    in if clock_hand bm2 = start_hand then (Inr None, bm2)
                       else evict_clock_loop io start_hand bm2)
              else (case write_back_and_clear_frame io (frame_id frame) bm1 of
                      (Inl e, bm') \<Rightarrow> (Inl e, bm')
                    | (Inr u, bm') \<Rightarrow> (Inr (Some (frame_id frame)), bm')))"
  by pat_completeness auto

lemma clear_clock_bit_decreases:
  "i < length fs \<Longrightarrow> clock_bit (fs ! i) \<Longrightarrow>
     length (filter clock_bit (fs[i := (fs ! i)\<lparr>clock_bit := False\<rparr>]))
       < length (filter clock_bit fs)"
proof (induction fs arbitrary: i)
  case Nil
  then show ?case by simp
next
  case (Cons f fs)
  show ?case
  proof (cases i)
    case 0
    with Cons.prems show ?thesis by simp
  next
    case (Suc j)
    with Cons.prems Cons.IH [of j] show ?thesis by simp
  qed
qed

termination evict_clock_loop
proof (relation "measure (\<lambda>(io, start_hand, bm). length (filter clock_bit (frames bm)))")
  show "wf (measure (\<lambda>(io, start_hand, bm). length (filter clock_bit (frames bm))))"
    by simp
next
  fix io :: io_outcome and start_hand :: nat and bm bm1 bm2 :: BufferManager
    and frame :: BufferFrame
  assume "\<not> length (frames bm) \<le> clock_hand bm"
    and "frame = frames bm ! clock_hand bm"
    and "bm1 = bm\<lparr>clock_hand := (clock_hand bm + 1) mod pool_size bm\<rparr>"
    and "clock_bit frame"
    and "bm2 = bm1\<lparr>frames := (frames bm1)[clock_hand bm := frame\<lparr>clock_bit := False\<rparr>]\<rparr>"
  then show "((io, start_hand, bm2), (io, start_hand, bm))
      \<in> measure (\<lambda>(io, start_hand, bm). length (filter clock_bit (frames bm)))"
    using clear_clock_bit_decreases [of "clock_hand bm" "frames bm"] by simp
qed

declare evict_clock_loop.simps [simp del]

definition evict_clock ::
  "io_outcome \<Rightarrow> BufferManager \<Rightarrow> (error + nat option) \<times> BufferManager" where
  "evict_clock io bm = evict_clock_loop io (clock_hand bm) bm"

text \<open>
  \<open>_evict_lru\<close> as the source has it: the search for the victim is left out, so
  \<open>victim_frame_id\<close> is still \<open>None\<close> when it is returned.
\<close>

definition evict_lru :: "BufferManager \<Rightarrow> (error + nat option) \<times> BufferManager" where
  "evict_lru bm = (Inr None, bm)"

definition evict_page ::
  "io_outcome \<Rightarrow> BufferManager \<Rightarrow> (error + nat option) \<times> BufferManager" where
  "evict_page io bm =
     (if policy bm = ''LRU'' then evict_lru bm
      else if policy bm = ''CLOCK'' then evict_clock io bm
      else evict_fifo io bm)"

text \<open>
  \<open>_load_page_from_disk\<close> in its two parts: finding a frame (a free one, or else a victim),
  and reading the page and installing it in that frame.
\<close>

definition obtain_frame ::
  "io_outcome \<Rightarrow> BufferManager \<Rightarrow> (error + nat option) \<times> BufferManager" where
  "obtain_frame io bm =
     (case get_free_frame bm of
        (Some fid, bm') \<Rightarrow> (Inr (Some fid), bm')
      | (None, bm') \<Rightarrow> evict_page io bm')"

definition read_and_install ::
  "io_outcome \<Rightarrow> int \<Rightarrow> nat \<Rightarrow> BufferManager \<Rightarrow> (error + DiskPage option) \<times> BufferManager" where
  "read_and_install io pid fid bm =
     (case read_page io pid (disk bm) of
        (Inl e, disk') \<Rightarrow> (Inl e, bm\<lparr>disk := disk'\<rparr>)
      | (Inr None, disk') \<Rightarrow>
          (Inr None,
           bm\<lparr>disk := disk',
              free_frames := (if fid \<in> set (free_frames bm) then free_frames bm
                              else free_frames bm @ [fid])\<rparr>)
      | (Inr (Some pg), disk') \<Rightarrow>
          (if length (frames bm) \<le> fid then (Inl IndexError, bm\<lparr>disk := disk'\<rparr>)
           else (Inr (Some pg),
                 bm\<lparr>disk := disk',
                    frames := (frames bm)[fid := (frames bm ! fid)
                                 \<lparr>page := Some pg, page_id := Some pid, is_dirty := False,
                                  last_accessed := access_counter bm,
                                  access_frequency := 1\<rparr>],
                    page_table := (page_table bm)(pid \<mapsto> fid)\<rparr>)))"

definition load_page_from_disk ::
  "get_page_env \<Rightarrow> int \<Rightarrow> BufferManager \<Rightarrow> (error + DiskPage option) \<times> BufferManager" where
  "load_page_from_disk env pid bm =
     (case obtain_frame (on_write env) bm of
        (Inl e, bm') \<Rightarrow> (Inl e, bm')
      | (Inr None, bm') \<Rightarrow> (Inr None, bm')
      | (Inr (Some fid), bm') \<Rightarrow> read_and_install (on_read env) pid fid bm')"

definition get_page ::
  "get_page_env \<Rightarrow> int \<Rightarrow> BufferManager \<Rightarrow> (error + DiskPage option) \<times> BufferManager" where
  "get_page env pid bm =
     (let bm1 = bm\<lparr>access_counter := access_counter bm + 1\<rparr>
      in case page_table bm1 pid of
           Some fid \<Rightarrow>
             (if length (frames bm1) \<le> fid then (Inl IndexError, bm1)
              else let frame = frames bm1 ! fid
                   in (Inr (page frame),
                       bm1\<lparr>frames := (frames bm1)[fid := frame
                                \<lparr>last_accessed := access_counter bm1,
                                 access_frequency := access_frequency frame + 1,
                                 clock_bit := True\<rparr>],
                           hits := hits bm1 + 1\<rparr>))
         | None \<Rightarrow> load_page_from_disk env pid (bm1\<lparr>misses := misses bm1 + 1\<rparr>))"

text \<open>
  A sequence of \<open>get_page\<close> calls on one manager, each with the I/O outcomes it meets; the
  caller goes on with the same manager whatever a call returned or raised.
\<close>

fun get_pages ::
  "(get_page_env \<times> int) list \<Rightarrow> BufferManager \<Rightarrow>
     (error + DiskPage option) list \<times> BufferManager" where
  "get_pages [] bm = ([], bm)"
| "get_pages ((env, pid) # rest) bm =
     (case get_page env pid bm of
        (res, bm') \<Rightarrow> (case get_pages rest bm' of (ress, bm'') \<Rightarrow> (res # ress, bm'')))"

section \<open>Consistency of the buffer pool\<close>

text \<open>
  A frame is consistent when it carries its own index and its \<open>page_id\<close> is that of
  the page it holds. The pool is consistent (\<open>bm_inv\<close>) when every frame is, the page
  table has an entry \<open>pid \<mapsto> fid\<close> exactly when frame \<open>fid\<close> holds page \<open>pid\<close>, and the
  free list enumerates the frames without a page, each once. Between obtaining a frame and
  installing a page in it, that one free frame is missing from the free list (\<open>holding\<close>).
\<close>

definition frame_ok :: "nat \<Rightarrow> BufferFrame \<Rightarrow> bool" where
  "frame_ok i f \<longleftrightarrow>
     frame_id f = i \<and>
     (case page f of None \<Rightarrow> page_id f = None
      | Some pg \<Rightarrow> page_id f = Some (DiskPage.page_id pg))"

definition frames_ok :: "BufferManager \<Rightarrow> bool" where
  "frames_ok bm \<longleftrightarrow>
     length (frames bm) = pool_size bm \<and>
     (\<forall>i < pool_size bm. frame_ok i (frames bm ! i))"

definition table_ok :: "BufferManager \<Rightarrow> bool" where
  "table_ok bm \<longleftrightarrow>
     (\<forall>pid fid. page_table bm pid = Some fid \<longleftrightarrow>
                  fid < pool_size bm \<and> page_id (frames bm ! fid) = Some pid)"

definition free_set :: "BufferManager \<Rightarrow> nat set" where
  "free_set bm = {i. i < pool_size bm \<and> page (frames bm ! i) = None}"

definition bm_inv :: "BufferManager \<Rightarrow> bool" where
  "bm_inv bm \<longleftrightarrow>
     frames_ok bm \<and> table_ok bm \<and>
     distinct (free_frames bm) \<and> set (free_frames bm) = free_set bm"

definition holding :: "nat \<Rightarrow> BufferManager \<Rightarrow> bool" where
  "holding fid bm \<longleftrightarrow>
     frames_ok bm \<and> table_ok bm \<and>
     distinct (free_frames bm) \<and> fid \<notin> set (free_frames bm) \<and>
     insert fid (set (free_frames bm)) = free_set bm"

definition frame_result_ok :: "(error + nat option) \<Rightarrow> BufferManager \<Rightarrow> bool" where
  "frame_result_ok r bm \<longleftrightarrow>
     (case r of Inr (Some fid) \<Rightarrow> holding fid bm | Inr None \<Rightarrow> bm_inv bm | Inl e \<Rightarrow> bm_inv bm)"

section \<open>A concrete store\<close>

text \<open>A backing file of \<open>n\<close> zero-filled pages, and I/O that neither fails nor takes time.\<close>

definition zero_store :: "nat \<Rightarrow> DiskManager" where
  "zero_store n = new_DiskManager (replicate (n * PAGE_SIZE) 0)"

definition quiet :: get_page_env where
  "quiet = \<lparr>on_write = \<lparr>io_fault = False, io_nomem = False, io_elapsed = Fin 0\<rparr>,
            on_read = \<lparr>io_fault = False, io_nomem = False, io_elapsed = Fin 0\<rparr>\<rparr>"

section \<open>User-aware buffer manager (step05\_bufferLLMemory.py)\<close>

text \<open>
  The classes of step 5 extend those of step 3. A field or method that a class of step 5
  inherits or overrides carries a suffix here, so that it does not hide the one of step 3:
  \<open>_llm\<close> for \<open>LLMPage\<close>, \<open>_x\<close> for \<open>ExtendedBufferFrame\<close>, \<open>_ua\<close> for
  \<open>UserAwareBufferManager\<close>. A \<open>datetime\<close> is a number of microseconds, and so is a
  \<open>timedelta\<close>; what \<open>datetime.now()\<close> returns is an input of the model, one reading for
  each place of a \<open>get_llm_page\<close> call that reads the clock.
\<close>

datatype PageType =
  USER_PREFERENCES | RECENT_CONVERSATION | USER_FACTS | OLD_CONVERSATION | SESSION_STATE

definition PageType_name :: "PageType \<Rightarrow> string" where
  "PageType_name t =
     (case t of
        USER_PREFERENCES \<Rightarrow> ''USER_PREFERENCES''
      | RECENT_CONVERSATION \<Rightarrow> ''RECENT_CONVERSATION''
      | USER_FACTS \<Rightarrow> ''USER_FACTS''
      | OLD_CONVERSATION \<Rightarrow> ''OLD_CONVERSATION''
      | SESSION_STATE \<Rightarrow> ''SESSION_STATE'')"

record UserSession =
  user_id :: string
  session_id :: string
  last_activity :: int
  is_active :: bool
  allocated_pages :: int

definition mark_activity :: "int \<Rightarrow> UserSession \<Rightarrow> UserSession" where
  "mark_activity now s = s\<lparr>last_activity := now, is_active := True\<rparr>"

record LLMPage = DiskPage +
  user_id_llm :: string
  page_type_llm :: PageType
  content :: string
  priority_llm :: int

definition get_priority :: "PageType \<Rightarrow> int" where
  "get_priority t =
     (case t of
        USER_PREFERENCES \<Rightarrow> 100
      | RECENT_CONVERSATION \<Rightarrow> 80
      | USER_FACTS \<Rightarrow> 60
      | OLD_CONVERSATION \<Rightarrow> 40
      | SESSION_STATE \<Rightarrow> 20)"

definition new_LLMPage :: "int \<Rightarrow> string \<Rightarrow> PageType \<Rightarrow> string \<Rightarrow> LLMPage" where
  "new_LLMPage pid uid t text =
     \<lparr>DiskPage.page_id = pid, orders = [], user_id_llm = uid, page_type_llm = t,
      content = text, priority_llm = get_priority t\<rparr>"

record ExtendedBufferFrame =
  frame_id_x :: nat
  page_x :: "LLMPage option"
  page_id_x :: "int option"
  is_dirty_x :: bool
  last_accessed_x :: int
  access_frequency_x :: nat
  clock_bit_x :: bool
  user_id_x :: "string option"
  page_type_x :: "PageType option"
  priority_x :: int

definition new_ExtendedBufferFrame :: "nat \<Rightarrow> ExtendedBufferFrame" where
  "new_ExtendedBufferFrame i =
     \<lparr>frame_id_x = i, page_x = None, page_id_x = None, is_dirty_x = False,
      last_accessed_x = 0, access_frequency_x = 0, clock_bit_x = False,
      user_id_x = None, page_type_x = None, priority_x = 0\<rparr>"

definition ExtendedBufferFrame_load_llm_page ::
  "int \<Rightarrow> LLMPage \<Rightarrow> ExtendedBufferFrame \<Rightarrow> ExtendedBufferFrame" where
  "ExtendedBufferFrame_load_llm_page now pg f =
     f\<lparr>page_x := Some pg, page_id_x := Some (DiskPage.page_id pg),
       user_id_x := Some (user_id_llm pg), page_type_x := Some (page_type_llm pg),
       priority_x := priority_llm pg, last_accessed_x := now, access_frequency_x := 1,
       is_dirty_x := False\<rparr>"

definition clear_frame :: "ExtendedBufferFrame \<Rightarrow> ExtendedBufferFrame" where
  "clear_frame f =
     f\<lparr>page_x := None, page_id_x := None, user_id_x := None, page_type_x := None,
       priority_x := 0, is_dirty_x := False, access_frequency_x := 0\<rparr>"

record UserAwareBufferManager =
  disk_ua :: DiskManager
  pool_size_ua :: nat
  policy_ua :: string
  frames_ua :: "ExtendedBufferFrame list"
  page_table_ua :: "int \<rightharpoonup> nat"
  free_frames_ua :: "nat list"
  access_counter_ua :: nat
  clock_hand_ua :: nat
  hits_ua :: nat
  misses_ua :: nat
  evictions_ua :: nat
  user_sessions :: "string \<rightharpoonup> UserSession"
  user_allocations :: "string \<rightharpoonup> int"
  activity_timeout :: int
  active_user_evictions :: nat

text \<open>The constructor; the timeout \<open>timedelta(minutes=5)\<close> is 300 000 000 microseconds.\<close>

definition new_UserAwareBufferManager :: "DiskManager \<Rightarrow> nat \<Rightarrow> UserAwareBufferManager" where
  "new_UserAwareBufferManager disk_manager n =
     \<lparr>disk_ua = disk_manager, pool_size_ua = n, policy_ua = ''USER_AWARE'',
      frames_ua = map new_ExtendedBufferFrame [0..<n],
      page_table_ua = Map.empty,
      free_frames_ua = [0..<n],
      access_counter_ua = 0, clock_hand_ua = 0, hits_ua = 0, misses_ua = 0, evictions_ua = 0,
      user_sessions = Map.empty, user_allocations = Map.empty,
      activity_timeout = 300000000, active_user_evictions = 0\<rparr>"

text \<open>
  The clock readings of one \<open>get_llm_page\<close> call: in \<open>register_user_activity\<close> (for the new
  session or for \<open>mark_activity\<close>), in the \<open>_update_active_status\<close> it calls, on a hit, in
  the \<open>_update_active_status\<close> of an eviction, and in the frame's \<open>load_llm_page\<close>.
\<close>

record clock =
  at_register :: int
  at_status :: int
  at_hit :: int
  at_evict :: int
  at_load :: int

definition update_active_status :: "int \<Rightarrow> UserAwareBufferManager \<Rightarrow> UserAwareBufferManager" where
  "update_active_status current_time bm =
     bm\<lparr>user_sessions :=
          (\<lambda>uid. case user_sessions bm uid of
                    None \<Rightarrow> None
                  | Some session \<Rightarrow>
                      Some (session\<lparr>is_active :=
                              current_time - last_activity session \<le> activity_timeout bm\<rparr>))\<rparr>"

definition register_user_activity ::
  "clock \<Rightarrow> string \<Rightarrow> UserAwareBufferManager \<Rightarrow> UserAwareBufferManager" where
  "register_user_activity clk uid bm =
     update_active_status (at_status clk)
       (case user_sessions bm uid of
          None \<Rightarrow>
            bm\<lparr>user_sessions := (user_sessions bm)(uid \<mapsto>
                  \<lparr>user_id = uid, session_id = ''default'', last_activity = at_register clk,
                   is_active = True, allocated_pages = 0\<rparr>),
               user_allocations := (user_allocations bm)(uid \<mapsto> 0)\<rparr>
        | Some session \<Rightarrow>
            bm\<lparr>user_sessions := (user_sessions bm)(uid \<mapsto>
                  mark_activity (at_register clk) session)\<rparr>)"

definition get_free_frame_ua ::
  "UserAwareBufferManager \<Rightarrow> nat option \<times> UserAwareBufferManager" where
  "get_free_frame_ua bm =
     (if free_frames_ua bm \<noteq> []
      then (Some (last (free_frames_ua bm)), bm\<lparr>free_frames_ua := butlast (free_frames_ua bm)\<rparr>)
      else (None, bm))"

text \<open>The override of \<open>_write_back_and_clear_frame\<close>, which writes nothing.\<close>

definition write_back_and_clear_frame_ua ::
  "nat \<Rightarrow> UserAwareBufferManager \<Rightarrow> (error + unit) \<times> UserAwareBufferManager" where
  "write_back_and_clear_frame_ua fid bm =
     (if length (frames_ua bm) \<le> fid then (Inl IndexError, bm)
      else let frame = frames_ua bm ! fid
           in (Inr (),
               bm\<lparr>page_table_ua :=
                    (case page_id_x frame of
                       Some pid \<Rightarrow> (page_table_ua bm)(pid := None)
                     | None \<Rightarrow> page_table_ua bm),
                  frames_ua := (frames_ua bm)[fid := clear_frame frame],
                  evictions_ua := evictions_ua bm + 1\<rparr>))"

text \<open>
  \<open>_evict_user_aware_lru\<close> as the source has it. The loop over the frames only assigns its
  two local variables, \<open>user_id\<close> and \<open>active_user_eviction\<close> (\<open>eviction_locals\<close>: their
  values after the loop, \<open>None\<close> if no frame holds a page); the selection of a victim is left
  out, so \<open>best_victim_frame\<close> is still \<open>None\<close> after the loop and the function returns
  \<open>None\<close> there. The statistics and the eviction that follow in the source are written for a
  victim that is a frame.
\<close>

definition eviction_locals ::
  "UserAwareBufferManager \<Rightarrow> (string option \<times> bool) option" where
  "eviction_locals bm =
     fold (\<lambda>frame locals.
             if page_x frame \<noteq> None
             then Some (user_id_x frame,
                        (case user_id_x frame of
                           None \<Rightarrow> False
                         | Some uid \<Rightarrow>
                             (case user_sessions bm uid of
                                None \<Rightarrow> False
                              | Some session \<Rightarrow> is_active session)))
             else locals)
          (frames_ua bm) None"

definition evict_cleanup ::
  "ExtendedBufferFrame \<Rightarrow> string option \<Rightarrow> bool \<Rightarrow> UserAwareBufferManager \<Rightarrow>
     (error + nat option) \<times> UserAwareBufferManager" where
  "evict_cleanup victim uid_opt active_user_eviction bm =
     (let bm1 = (if active_user_eviction
                 then bm\<lparr>active_user_evictions := active_user_evictions bm + 1\<rparr> else bm);
          bm2 = (case uid_opt of
                   None \<Rightarrow> bm1
                 | Some uid \<Rightarrow>
                     bm1\<lparr>user_allocations :=
                           (case user_allocations bm1 uid of
                              None \<Rightarrow> user_allocations bm1
                            | Some k \<Rightarrow> (user_allocations bm1)(uid \<mapsto> max 0 (k - 1))),
                         user_sessions :=
                           (case user_sessions bm1 uid of
                              None \<Rightarrow> user_sessions bm1
                            | Some session \<Rightarrow>
                                (user_sessions bm1)(uid \<mapsto> session\<lparr>allocated_pages :=
                                   max 0 (allocated_pages session - 1)\<rparr>))\<rparr>)
      in case write_back_and_clear_frame_ua (frame_id_x victim) bm2 of
           (Inl e, bm3) \<Rightarrow> (Inl e, bm3)
         | (Inr u, bm3) \<Rightarrow> (Inr (Some (frame_id_x victim)), bm3))"

definition evict_user_aware_lru ::
  "int \<Rightarrow> UserAwareBufferManager \<Rightarrow> (error + nat option) \<times> UserAwareBufferManager" where
  "evict_user_aware_lru current_time bm =
     (let bm1 = update_active_status current_time bm;
          best_victim_frame = (None :: ExtendedBufferFrame option);
          locals = eviction_locals bm1
      in case best_victim_frame of
           None \<Rightarrow> (Inr None, bm1)
         | Some victim \<Rightarrow>
             (case locals of
                None \<Rightarrow> (Inl NameError, bm1)
              | Some (uid_opt, active_user_eviction) \<Rightarrow>
                  evict_cleanup victim uid_opt active_user_eviction bm1))"

definition evict_page_ua ::
  "int \<Rightarrow> UserAwareBufferManager \<Rightarrow> (error + nat option) \<times> UserAwareBufferManager" where
  "evict_page_ua current_time bm = evict_user_aware_lru current_time bm"

text \<open>\<open>_load_llm_page\<close>: a frame, free or evicted, then the new page installed in it.\<close>

definition install_llm_page ::
  "clock \<Rightarrow> int \<Rightarrow> string \<Rightarrow> PageType \<Rightarrow> nat \<Rightarrow> UserAwareBufferManager \<Rightarrow>
     (error + LLMPage option) \<times> UserAwareBufferManager" where
  "install_llm_page clk pid uid t fid bm =
     (let pg = new_LLMPage pid uid t (''Content for '' @ PageType_name t)
      in if length (frames_ua bm) \<le> fid then (Inl IndexError, bm)
         else (Inr (Some pg),
               bm\<lparr>frames_ua := (frames_ua bm)[fid :=
                      ExtendedBufferFrame_load_llm_page (at_load clk) pg (frames_ua bm ! fid)],
                  page_table_ua := (page_table_ua bm)(pid \<mapsto> fid),
                  user_allocations := (user_allocations bm)(uid \<mapsto>
                      (case user_allocations bm uid of None \<Rightarrow> 0 | Some k \<Rightarrow> k) + 1),
                  user_sessions :=
                    (case user_sessions bm uid of
                       None \<Rightarrow> user_sessions bm
                     | Some session \<Rightarrow>
                         (user_sessions bm)(uid \<mapsto> session\<lparr>allocated_pages :=
                            allocated_pages session + 1\<rparr>))\<rparr>))"

definition load_llm_page ::
  "clock \<Rightarrow> int \<Rightarrow> string \<Rightarrow> PageType \<Rightarrow> UserAwareBufferManager \<Rightarrow>
     (error + LLMPage option) \<times> UserAwareBufferManager" where
  "load_llm_page clk pid uid t bm =
     (case get_free_frame_ua bm of
        (Some fid, bm1) \<Rightarrow> install_llm_page clk pid uid t fid bm1
      | (None, bm1) \<Rightarrow>
          (case evict_page_ua (at_evict clk) bm1 of
             (Inl e, bm2) \<Rightarrow> (Inl e, bm2)
           | (Inr None, bm2) \<Rightarrow> (Inr None, bm2)
           | (Inr (Some fid), bm2) \<Rightarrow> install_llm_page clk pid uid t fid bm2))"

definition get_llm_page ::
  "clock \<Rightarrow> int \<Rightarrow> string \<Rightarrow> PageType \<Rightarrow> UserAwareBufferManager \<Rightarrow>
     (error + LLMPage option) \<times> UserAwareBufferManager" where
  "get_llm_page clk pid uid t bm =
     (let bm1 = register_user_activity clk uid bm
      in case page_table_ua bm1 pid of
           Some fid \<Rightarrow>
             (if length (frames_ua bm1) \<le> fid then (Inl IndexError, bm1)
              else let frame = frames_ua bm1 ! fid
                   in (Inr (page_x frame),
                       bm1\<lparr>frames_ua := (frames_ua bm1)[fid := frame
                                \<lparr>last_accessed_x := at_hit clk,
                                 access_frequency_x := access_frequency_x frame + 1\<rparr>],
                           hits_ua := hits_ua bm1 + 1\<rparr>))
         | None \<Rightarrow> load_llm_page clk pid uid t (bm1\<lparr>misses_ua := misses_ua bm1 + 1\<rparr>))"

text \<open>All five readings of a call at one time.\<close>

definition at_time :: "int \<Rightarrow> clock" where
  "at_time t = \<lparr>at_register = t, at_status = t, at_hit = t, at_evict = t, at_load = t\<rparr>"

section \<open>Properties of the floats\<close>

lemma bit_length_le: "n < 2 ^ k \<Longrightarrow> bit_length n \<le> k"
proof (induction k arbitrary: n)
  case 0
  then have "n = 0" by simp
  then show ?case by (simp add: bit_length.simps)
next
  case (Suc k)
  show ?case
  proof (cases "n = 0")
    case True
    then show ?thesis by (simp add: bit_length.simps)
  next
    case False
    from Suc.prems have "n div 2 < 2 ^ k" by simp
    from Suc.IH [OF this] False show ?thesis
      by (subst bit_length.simps) simp
  qed
qed

lemma bit_length_pos: "0 < n \<Longrightarrow> 0 < bit_length n"
  by (subst bit_length.simps) simp

lemma round_half_even_of_int: "round_half_even (of_int m) = m"
  by (simp add: round_half_even_def)

lemma float_round_of_int:
  assumes "\<bar>n\<bar> < 2 ^ 53"
  shows "float_round (of_int n) = Fin (of_int n)"
proof (cases "n = 0")
  case True
  then show ?thesis by (simp add: float_round_def)
next
  case False
  define k where "k = bit_length (nat \<bar>n\<bar>)"
  define j where "j = 53 - k"
  from assms have "nat \<bar>n\<bar> < 2 ^ 53"
    by (simp add: nat_less_iff)
  then have k53: "k \<le> 53"
    unfolding k_def by (rule bit_length_le)
  from False have "0 < nat \<bar>n\<bar>" by simp
  then have kpos: "0 < k"
    unfolding k_def by (rule bit_length_pos)
  from False have one: "1 \<le> \<bar>real_of_int n\<bar>"
  proof -
    from False have "1 \<le> \<bar>n\<bar>" by simp
    then have "1 \<le> real_of_int \<bar>n\<bar>" by (simp only: of_int_1_le_iff)
    then show ?thesis by simp
  qed
  have fl: "\<lfloor>\<bar>real_of_int n\<bar>\<rfloor> = \<bar>n\<bar>"
  proof -
    have "\<bar>real_of_int n\<bar> = real_of_int \<bar>n\<bar>" by simp
    then show ?thesis by (simp only: floor_of_int)
  qed
  have flog: "floor_log2 \<bar>real_of_int n\<bar> = int k - 1"
    using one by (simp add: floor_log2_def fl k_def)
  have e: "max (floor_log2 \<bar>real_of_int n\<bar> - 52) (- 1074) = - int j"
    unfolding flog j_def using k53 kpos by simp
  have p: "pow2 (- int j) = 1 / 2 ^ j"
  proof (cases "j = 0")
    case True
    then show ?thesis by (simp add: pow2_def)
  next
    case False
    then have "\<not> 0 \<le> - int j" "nat (- (- int j)) = j" by simp_all
    then show ?thesis by (simp only: pow2_def if_False)
  qed
  have "real_of_int n / pow2 (- int j) = of_int (n * 2 ^ j)"
    by (simp add: p)
  then have r: "round_half_even (real_of_int n / pow2 (- int j)) = n * 2 ^ j"
    by (simp only: round_half_even_of_int)
  have y: "of_int (round_half_even (real_of_int n / pow2 (- int j))) * pow2 (- int j)
      = real_of_int n"
    unfolding r by (simp add: p)
  from assms have "real_of_int \<bar>n\<bar> < 2 ^ 53"
    by (simp only: of_int_less_numeral_power_cancel_iff)
  moreover have "(2::real) ^ 53 \<le> 2 ^ 1024"
    by (rule power_increasing) simp_all
  ultimately have b: "\<not> 2 ^ 1024 \<le> real_of_int n" "\<not> real_of_int n \<le> - (2 ^ 1024)"
    by linarith+
  from False have nz: "real_of_int n \<noteq> 0" by simp
  show ?thesis
    unfolding float_round_def Let_def e y
    using nz b by (simp only: if_False)
qed

lemma float_of_int_exact: "\<bar>n\<bar> < 2 ^ 53 \<Longrightarrow> float_of_int n = Inr (Fin (of_int n))"
  by (simp add: float_of_int_def float_round_of_int)

text \<open>One rounding, step by step: the exponent, the significand, the value.\<close>

lemma float_round_eval:
  assumes "x \<noteq> 0"
    and "max (floor_log2 \<bar>x\<bar> - 52) (- 1074) = e"
    and "round_half_even (x / pow2 e) = m"
    and "of_int m * pow2 e = y"
    and "\<bar>y\<bar> < 2 ^ 1024"
  shows "float_round x = Fin y"
proof -
  from assms(5) have "\<not> 2 ^ 1024 \<le> y" "\<not> y \<le> - (2 ^ 1024)"
    by linarith+
  with assms(1) show ?thesis
    unfolding float_round_def Let_def assms(2) assms(3) assms(4)
    by (simp only: if_False)
qed

section \<open>Properties of the record codec\<close>

lemma uint_byte_of_int: "uint (word_of_int k :: byte) = k mod 256"
  by (simp add: uint_word_of_int take_bit_eq_mod)

lemma u32_split:
  fixes v :: int
  assumes "0 \<le> v" "v < 4294967296"
  shows "v mod 256 + 256 * (v div 256 mod 256) + 65536 * (v div 65536 mod 256)
           + 16777216 * (v div 16777216 mod 256) = v"
proof -
  define a where "a = v div 256"
  define b where "b = a div 256"
  define c where "c = b div 256"
  have b_eq: "v div 65536 = b"
    unfolding b_def a_def by (simp add: zdiv_zmult2_eq)
  have c_eq: "v div 16777216 = c"
    unfolding c_def b_def a_def by (simp add: zdiv_zmult2_eq)
  have c_small: "0 \<le> c" "c < 256"
  proof -
    show "0 \<le> c"
      using assms(1) unfolding c_eq[symmetric] by (simp add: pos_imp_zdiv_nonneg_iff)
    have "v div 16777216 \<le> 4294967295 div 16777216"
      by (rule zdiv_mono1) (use assms(2) in simp_all)
    then show "c < 256" unfolding c_eq by simp
  qed
  have 1: "v = v mod 256 + 256 * a" unfolding a_def by simp
  have 2: "a = a mod 256 + 256 * b" unfolding b_def by simp
  have 3: "b = b mod 256 + 256 * c" unfolding c_def by simp
  have 4: "c mod 256 = c" using c_small by simp
  show ?thesis
    unfolding b_eq c_eq a_def[symmetric] 4
    using 1 2 3 by linarith
qed

lemma unpack_I_bytes_I: "u32_ok v \<Longrightarrow> unpack_I (bytes_I v @ rest) = v"
  by (simp add: unpack_I_def bytes_I_def uint_byte_of_int u32_split u32_ok_def)

lemma length_bytes_I: "length (bytes_I v) = 4"
  by (simp add: bytes_I_def)

lemma slice_bytes_I_0: "slice 0 4 (bytes_I v @ rest) = bytes_I v"
  by (simp add: slice_def bytes_I_def)

lemma slice_skip_bytes_I: "slice (4 + a) (4 + b) (bytes_I v @ rest) = slice a b rest"
proof -
  have "drop (4 + a) (bytes_I v @ rest) = drop a (drop 4 (bytes_I v @ rest))"
    by (simp add: add.commute length_bytes_I)
  also have "drop 4 (bytes_I v @ rest) = rest"
    by (simp add: bytes_I_def)
  finally show ?thesis
    by (simp add: slice_def)
qed

lemma unpack_I_slice_0: "u32_ok v \<Longrightarrow> unpack_I (slice 0 4 (bytes_I v @ rest)) = v"
  using unpack_I_bytes_I [of v "[]"] by (simp add: slice_bytes_I_0)

lemma struct_unpack_pack:
  assumes "struct_pack_8I vs = Inr bs"
  shows "length bs = 32 \<and> struct_unpack_8I bs = Inr vs"
proof -
  from assms have len: "length vs = 8" and ok: "list_all u32_ok vs"
    and bs: "bs = concat (map bytes_I vs)"
    by (auto simp: struct_pack_8I_def split: if_splits)
  from len obtain a b c d e f g h where vs: "vs = [a, b, c, d, e, f, g, h]"
    by (auto simp: length_Suc_conv eval_nat_numeral)
  have lbs: "length bs = 32"
    by (simp add: bs vs length_bytes_I)
  have s1: "slice 4 8 (bytes_I v @ rest) = slice 0 4 rest" for v rest
    using slice_skip_bytes_I [of 0 4 v rest] by simp
  have s2: "slice 8 12 (bytes_I v @ rest) = slice 4 8 rest" for v rest
    using slice_skip_bytes_I [of 4 8 v rest] by simp
  have s3: "slice 12 16 (bytes_I v @ rest) = slice 8 12 rest" for v rest
    using slice_skip_bytes_I [of 8 12 v rest] by simp
  have s4: "slice 16 20 (bytes_I v @ rest) = slice 12 16 rest" for v rest
    using slice_skip_bytes_I [of 12 16 v rest] by simp
  have s5: "slice 20 24 (bytes_I v @ rest) = slice 16 20 rest" for v rest
    using slice_skip_bytes_I [of 16 20 v rest] by simp
  have s6: "slice 24 28 (bytes_I v @ rest) = slice 20 24 rest" for v rest
    using slice_skip_bytes_I [of 20 24 v rest] by simp
  have s7: "slice 28 32 (bytes_I v @ rest) = slice 24 28 rest" for v rest
    using slice_skip_bytes_I [of 24 28 v rest] by simp
  have last: "unpack_I (slice 0 4 (bytes_I v)) = v" if "u32_ok v" for v
    using unpack_I_slice_0 [OF that, of "[]"] by simp
  have "map (\<lambda>k. unpack_I (slice (4 * k) (4 * k + 4) bs)) [0, 1, 2, 3, 4, 5, 6, 7] = vs"
    using ok by (simp add: bs vs s1 s2 s3 s4 s5 s6 s7 unpack_I_slice_0 last)
  then have "struct_unpack_8I bs = Inr vs"
    using lbs by (simp add: struct_unpack_8I_def)
  with lbs show ?thesis by simp
qed

text \<open>The floats of the prices 0.57 and 0.56, and the product \<open>0.57 * 100\<close>.\<close>

lemma float_057: "float_round (57 / 100) = Fin (5134103575202365 / 9007199254740992)"
  by (rule float_round_eval [where e = "- 53" and m = 5134103575202365])
    (simp_all add: floor_log2_def bit_length.simps round_half_even_def pow2_def)

lemma float_057_times_100:
  "float_mul (Fin (5134103575202365 / 9007199254740992)) (Fin 100)
     = Fin (8022036836253695 / 140737488355328)"
  unfolding float_mul_def
  by (simp, rule float_round_eval [where e = "- 47" and m = 8022036836253695])
    (simp_all add: floor_log2_def bit_length.simps round_half_even_def pow2_def)

lemma float_056: "float_round (56 / 100) = Fin (5044031582654956 / 9007199254740992)"
  by (rule float_round_eval [where e = "- 53" and m = 5044031582654956])
    (simp_all add: floor_log2_def bit_length.simps round_half_even_def pow2_def)

lemma int_of_057_times_100: "py_int (Fin (8022036836253695 / 140737488355328)) = Inr 56"
  by (simp add: py_int_def)

lemma uint_byte_range: "0 \<le> uint (b :: byte) \<and> uint b < 256"
  using uint_lt2p [of b] by simp

lemma unpack_I_range: "0 \<le> unpack_I bs \<and> unpack_I bs < 4294967296"
proof -
  note r = uint_byte_range [of "bs ! 0"] uint_byte_range [of "bs ! 1"]
    uint_byte_range [of "bs ! 2"] uint_byte_range [of "bs ! 3"]
  from r show ?thesis
    unfolding unpack_I_def by linarith
qed

lemma cents_to_price:
  assumes "0 \<le> c" "c < 4294967296"
  shows "bind_err (float_of_int c) (\<lambda>x. float_truediv x (Fin 100))
           = Inr (float_round (real_of_int c / 100))"
proof -
  from assms have "\<bar>c\<bar> < 2 ^ 53" by simp
  then have "float_of_int c = Inr (Fin (of_int c))"
    by (rule float_of_int_exact)
  then show ?thesis
    by (simp add: bind_err_def float_truediv_def)
qed

lemma Order_from_bytes_fields:
  "Order_from_bytes data =
     (if length data < 32 then Inl ValueError
      else Inr \<lparr>order_id = uint (data ! 0) + 256 * uint (data ! 1) + 65536 * uint (data ! 2)
                   + 16777216 * uint (data ! 3),
                 customer_id = uint (data ! 4) + 256 * uint (data ! 5)
                   + 65536 * uint (data ! 6) + 16777216 * uint (data ! 7),
                 product_id = uint (data ! 8) + 256 * uint (data ! 9)
                   + 65536 * uint (data ! 10) + 16777216 * uint (data ! 11),
                 quantity = uint (data ! 12) + 256 * uint (data ! 13)
                   + 65536 * uint (data ! 14) + 16777216 * uint (data ! 15),
                 price = float_round (real_of_int (uint (data ! 16) + 256 * uint (data ! 17)
                   + 65536 * uint (data ! 18) + 16777216 * uint (data ! 19)) / 100),
                 order_date = uint (data ! 20) + 256 * uint (data ! 21)
                   + 65536 * uint (data ! 22) + 16777216 * uint (data ! 23),
                 region = uint (data ! 24) + 256 * uint (data ! 25)
                   + 65536 * uint (data ! 26) + 16777216 * uint (data ! 27)\<rparr>)"
proof (cases "length data < 32")
  case True
  then show ?thesis
    by (simp add: Order_from_bytes_def RECORD_SIZE_def)
next
  case False
  then have len: "32 \<le> length data" by simp
  have f0: "unpack_I (slice 0 4 (take 32 data)) = uint (data ! 0) + 256 * uint (data ! 1)
      + 65536 * uint (data ! 2) + 16777216 * uint (data ! 3)"
    using len by (simp add: unpack_I_def slice_def)
  have f1: "unpack_I (slice 4 8 (take 32 data)) = uint (data ! 4) + 256 * uint (data ! 5)
      + 65536 * uint (data ! 6) + 16777216 * uint (data ! 7)"
    using len by (simp add: unpack_I_def slice_def)
  have f2: "unpack_I (slice 8 12 (take 32 data)) = uint (data ! 8) + 256 * uint (data ! 9)
      + 65536 * uint (data ! 10) + 16777216 * uint (data ! 11)"
    using len by (simp add: unpack_I_def slice_def)
  have f3: "unpack_I (slice 12 16 (take 32 data)) = uint (data ! 12) + 256 * uint (data ! 13)
      + 65536 * uint (data ! 14) + 16777216 * uint (data ! 15)"
    using len by (simp add: unpack_I_def slice_def)
  have f4: "unpack_I (slice 16 20 (take 32 data)) = uint (data ! 16) + 256 * uint (data ! 17)
      + 65536 * uint (data ! 18) + 16777216 * uint (data ! 19)"
    using len by (simp add: unpack_I_def slice_def)
  have f5: "unpack_I (slice 20 24 (take 32 data)) = uint (data ! 20) + 256 * uint (data ! 21)
      + 65536 * uint (data ! 22) + 16777216 * uint (data ! 23)"
    using len by (simp add: unpack_I_def slice_def)
  have f6: "unpack_I (slice 24 28 (take 32 data)) = uint (data ! 24) + 256 * uint (data ! 25)
      + 65536 * uint (data ! 26) + 16777216 * uint (data ! 27)"
    using len by (simp add: unpack_I_def slice_def)
  have un: "struct_unpack_8I (take 32 data) =
      Inr (map (\<lambda>k. unpack_I (slice (4 * k) (4 * k + 4) (take 32 data)))
             [0, 1, 2, 3, 4, 5, 6, 7])"
    using len by (simp add: struct_unpack_8I_def)
  define c where "c = uint (data ! 16) + 256 * uint (data ! 17) + 65536 * uint (data ! 18)
      + 16777216 * uint (data ! 19)"
  from unpack_I_range [of "slice 16 20 (take 32 data)"] have "0 \<le> c" "c < 4294967296"
    unfolding f4 c_def by simp_all
  then have "bind_err (float_of_int c) (\<lambda>x. float_truediv x (Fin 100))
      = Inr (float_round (real_of_int c / 100))"
    by (rule cents_to_price)
  then have cents: "(case float_of_int c of Inl e \<Rightarrow> Inl e
        | Inr x \<Rightarrow> float_truediv x (Fin 100)) = Inr (float_round (real_of_int c / 100))"
    by (simp only: bind_err_def)
  show ?thesis
    unfolding Order_from_bytes_def RECORD_SIZE_def un
    using False
    by (simp add: bind_err_def f0 f1 f2 f3 f4 f5 f6 c_def [symmetric] cents)
qed

text \<open>
  What a round trip keeps: when \<open>to_bytes\<close> succeeds, decoding its 32 bytes gives back the
  six integer fields, and as price the stored number of cents divided by 100.0.
\<close>

lemma Order_to_bytes_from_bytes:
  assumes "Order_to_bytes r = Inr bs"
  shows "\<exists>cents. py_int (float_mul (price r) (Fin 100)) = Inr cents \<and> length bs = 32 \<and>
           Order_from_bytes bs = Inr (r\<lparr>price := float_round (real_of_int cents / 100)\<rparr>)"
proof -
  from assms obtain cents where c: "py_int (float_mul (price r) (Fin 100)) = Inr cents"
    and pack: "struct_pack_8I [order_id r, customer_id r, product_id r, quantity r,
                 cents, order_date r, region r, 0] = Inr bs"
    by (cases "py_int (float_mul (price r) (Fin 100))")
      (simp_all add: Order_to_bytes_def bind_err_def)
  from pack have "u32_ok cents"
    by (simp add: struct_pack_8I_def split: if_splits)
  then have range: "0 \<le> cents" "cents < 4294967296"
    by (simp_all add: u32_ok_def)
  from struct_unpack_pack [OF pack]
  have len: "length bs = 32"
    and unpack: "struct_unpack_8I bs = Inr [order_id r, customer_id r, product_id r,
                   quantity r, cents, order_date r, region r, 0]"
    by simp_all
  from cents_to_price [OF range]
  have price: "(case float_of_int cents of Inl e \<Rightarrow> Inl e
        | Inr x \<Rightarrow> float_truediv x (Fin 100)) = Inr (float_round (real_of_int cents / 100))"
    by (simp only: bind_err_def)
  have "Order_from_bytes bs = Inr (r\<lparr>price := float_round (real_of_int cents / 100)\<rparr>)"
    unfolding Order_from_bytes_def RECORD_SIZE_def
    using len unpack by (simp add: bind_err_def price)
  with c len show ?thesis by blast
qed

text \<open>
  C1 (the code departs from the claim). An order priced 0.57, the float nearest to 57/100:
  the float product \<open>0.57 * 100\<close> is the float just below 57, so \<open>to_bytes\<close> stores 56
  cents, and \<open>from_bytes\<close> returns the price 0.56, the float nearest to 56/100. The other
  six fields come back unchanged.
\<close>

theorem Order_roundtrip_loses_a_cent:
  "float_round (57 / 100) = Fin (5134103575202365 / 2 ^ 53) \<and>
   float_mul (float_round (57 / 100)) (Fin 100) = Fin (8022036836253695 / 2 ^ 47) \<and>
   Order_to_bytes \<lparr>order_id = 1, customer_id = 100, product_id = 50, quantity = 2,
       price = float_round (57 / 100), order_date = 365, region = 1\<rparr> =
     Inr [1, 0, 0, 0, 100, 0, 0, 0, 50, 0, 0, 0, 2, 0, 0, 0,
          56, 0, 0, 0, 109, 1, 0, 0, 1, 0, 0, 0, 0, 0, 0, 0] \<and>
   Order_from_bytes [1, 0, 0, 0, 100, 0, 0, 0, 50, 0, 0, 0, 2, 0, 0, 0,
          56, 0, 0, 0, 109, 1, 0, 0, 1, 0, 0, 0, 0, 0, 0, 0] =
     Inr \<lparr>order_id = 1, customer_id = 100, product_id = 50, quantity = 2,
       price = float_round (56 / 100), order_date = 365, region = 1\<rparr> \<and>
   float_round (56 / 100) = Fin (5044031582654956 / 2 ^ 53) \<and>
   float_round (56 / 100) \<noteq> float_round (57 / 100)"
proof -
  have p57: "float_round (57 / 100) = Fin (5134103575202365 / 2 ^ 53)"
    using float_057 by simp
  have prod: "float_mul (float_round (57 / 100)) (Fin 100) = Fin (8022036836253695 / 2 ^ 47)"
    unfolding float_057 float_057_times_100 by simp
  have p56: "float_round (56 / 100) = Fin (5044031582654956 / 2 ^ 53)"
    using float_056 by simp
  have cents: "py_int (float_mul (float_round (57 / 100)) (Fin 100)) = Inr 56"
    unfolding float_057 float_057_times_100 by (rule int_of_057_times_100)
  have enc: "Order_to_bytes \<lparr>order_id = 1, customer_id = 100, product_id = 50, quantity = 2,
       price = float_round (57 / 100), order_date = 365, region = 1\<rparr> =
     Inr [1, 0, 0, 0, 100, 0, 0, 0, 50, 0, 0, 0, 2, 0, 0, 0,
          56, 0, 0, 0, 109, 1, 0, 0, 1, 0, 0, 0, 0, 0, 0, 0]"
    unfolding Order_to_bytes_def
    by (simp add: cents bind_err_def struct_pack_8I_def u32_ok_def bytes_I_def)
  have dec: "Order_from_bytes [1, 0, 0, 0, 100, 0, 0, 0, 50, 0, 0, 0, 2, 0, 0, 0,
          56, 0, 0, 0, 109, 1, 0, 0, 1, 0, 0, 0, 0, 0, 0, 0] =
     Inr \<lparr>order_id = 1, customer_id = 100, product_id = 50, quantity = 2,
       price = float_round (56 / 100), order_date = 365, region = 1\<rparr>"
    by (subst Order_from_bytes_fields) simp
  have "float_round (56 / 100) \<noteq> float_round (57 / 100)"
    unfolding float_056 float_057 by simp
  with p57 prod enc dec p56 show ?thesis by blast
qed

text \<open>
  C10. Decoding raises exactly on a buffer shorter than 32 bytes, and then \<open>ValueError\<close>.
  On a buffer of at least 32 bytes it returns the record whose integer fields are the
  little-endian values of bytes 0 to 3, 4 to 7, 8 to 11, 12 to 15, 20 to 23 and 24 to 27,
  and whose price is the value of bytes 16 to 19 divided by 100.0: the result is decoded from
  the first 32 bytes, and the bytes that follow them do not change it.
\<close>

theorem Order_from_bytes_first_32:
  "Order_from_bytes data =
     (if length data < 32 then Inl ValueError
      else Inr \<lparr>order_id = uint (data ! 0) + 256 * uint (data ! 1) + 65536 * uint (data ! 2)
                   + 16777216 * uint (data ! 3),
                 customer_id = uint (data ! 4) + 256 * uint (data ! 5)
                   + 65536 * uint (data ! 6) + 16777216 * uint (data ! 7),
                 product_id = uint (data ! 8) + 256 * uint (data ! 9)
                   + 65536 * uint (data ! 10) + 16777216 * uint (data ! 11),
                 quantity = uint (data ! 12) + 256 * uint (data ! 13)
                   + 65536 * uint (data ! 14) + 16777216 * uint (data ! 15),
                 price = float_round (real_of_int (uint (data ! 16) + 256 * uint (data ! 17)
                   + 65536 * uint (data ! 18) + 16777216 * uint (data ! 19)) / 100),
                 order_date = uint (data ! 20) + 256 * uint (data ! 21)
                   + 65536 * uint (data ! 22) + 16777216 * uint (data ! 23),
                 region = uint (data ! 24) + 256 * uint (data ! 25)
                   + 65536 * uint (data ! 26) + 16777216 * uint (data ! 27)\<rparr>) \<and>
   ((\<exists>e. Order_from_bytes data = Inl e) \<longleftrightarrow> length data < 32) \<and>
   (32 \<le> length data \<longrightarrow>
      Order_from_bytes (take 32 data @ trailing) = Order_from_bytes data)"
proof -
  note fields = Order_from_bytes_fields [of data]
  have raises: "(\<exists>e. Order_from_bytes data = Inl e) \<longleftrightarrow> length data < 32"
    by (subst fields) simp
  have "Order_from_bytes (take 32 data @ trailing) = Order_from_bytes data"
    if len: "32 \<le> length data"
  proof -
    have same: "(take 32 data @ trailing) ! i = data ! i" if "i < 32" for i
      using that len by (simp add: nth_append)
    have "\<not> length (take 32 data @ trailing) < 32" "\<not> length data < 32"
      using len by simp_all
    then show ?thesis
      by (simp only: Order_from_bytes_fields [of "take 32 data @ trailing"] fields if_False)
        (simp add: same)
  qed
  with fields raises show ?thesis by blast
qed

text \<open>
  A buffer of 35 bytes: the 32 bytes of order 1 of customer 100 (product 50, quantity 2,
  2999 cents, day 365, region 1) and three more bytes. A buffer of 31 bytes raises.
\<close>

theorem Order_from_bytes_first_32_witness:
  "Order_from_bytes [1, 0, 0, 0, 100, 0, 0, 0, 50, 0, 0, 0, 2, 0, 0, 0,
        183, 11, 0, 0, 109, 1, 0, 0, 1, 0, 0, 0, 0, 0, 0, 0, 7, 7, 7]
     = Inr \<lparr>order_id = 1, customer_id = 100, product_id = 50, quantity = 2,
            price = float_round (2999 / 100), order_date = 365, region = 1\<rparr> \<and>
   Order_from_bytes [1, 0, 0, 0, 100, 0, 0, 0, 50, 0, 0, 0, 2, 0, 0, 0,
        183, 11, 0, 0, 109, 1, 0, 0, 1, 0, 0, 0, 0, 0, 0, 0]
     = Order_from_bytes [1, 0, 0, 0, 100, 0, 0, 0, 50, 0, 0, 0, 2, 0, 0, 0,
        183, 11, 0, 0, 109, 1, 0, 0, 1, 0, 0, 0, 0, 0, 0, 0, 7, 7, 7] \<and>
   Order_from_bytes [1, 0, 0, 0, 100, 0, 0, 0, 50, 0, 0, 0, 2, 0, 0, 0,
        183, 11, 0, 0, 109, 1, 0, 0, 1, 0, 0, 0, 0, 0, 0] = Inl ValueError"
proof -
  let ?d = "[1, 0, 0, 0, 100, 0, 0, 0, 50, 0, 0, 0, 2, 0, 0, 0,
        183, 11, 0, 0, 109, 1, 0, 0, 1, 0, 0, 0, 0, 0, 0, 0, 7, 7, 7] :: byte list"
  let ?s = "[1, 0, 0, 0, 100, 0, 0, 0, 50, 0, 0, 0, 2, 0, 0, 0,
        183, 11, 0, 0, 109, 1, 0, 0, 1, 0, 0, 0, 0, 0, 0] :: byte list"
  have long: "32 \<le> length ?d" "\<not> length ?d < 32" by simp_all
  have short: "length ?s < 32" by simp
  have tk: "take 32 ?d @ [] = [1, 0, 0, 0, 100, 0, 0, 0, 50, 0, 0, 0, 2, 0, 0, 0,
        183, 11, 0, 0, 109, 1, 0, 0, 1, 0, 0, 0, 0, 0, 0, 0]"
    by simp
  from Order_from_bytes_first_32 [of ?d "[]"] long
  have 1: "Order_from_bytes ?d
     = Inr \<lparr>order_id = 1, customer_id = 100, product_id = 50, quantity = 2,
            price = float_round (2999 / 100), order_date = 365, region = 1\<rparr>"
    and 2: "Order_from_bytes (take 32 ?d @ []) = Order_from_bytes ?d"
    by simp_all
  from Order_from_bytes_first_32 [of ?s "[]"] short
  have 3: "Order_from_bytes ?s = Inl ValueError"
    by (simp only: if_True)
  from 1 2 3 show ?thesis
    unfolding tk by simp
qed

section \<open>Properties of the buffer manager\<close>

lemma new_BufferManager_inv: "bm_inv (new_BufferManager d n pol)"
  by (auto simp: bm_inv_def frames_ok_def frame_ok_def table_ok_def free_set_def
      new_BufferManager_def new_BufferFrame_def)

lemma get_free_frame_Some:
  assumes "bm_inv bm" "get_free_frame bm = (Some fid, bm')"
  shows "holding fid bm'"
proof -
  from assms(2) have ne: "free_frames bm \<noteq> []" and fid: "fid = last (free_frames bm)"
    and bm': "bm' = bm\<lparr>free_frames := butlast (free_frames bm)\<rparr>"
    by (auto simp: get_free_frame_def split: if_splits)
  from ne have split: "free_frames bm = butlast (free_frames bm) @ [fid]"
    by (simp add: fid)
  from assms(1) have d: "distinct (free_frames bm)" and s: "set (free_frames bm) = free_set bm"
    by (simp_all add: bm_inv_def)
  from d split have "distinct (butlast (free_frames bm) @ [fid])" by simp
  then have 1: "distinct (butlast (free_frames bm))" "fid \<notin> set (butlast (free_frames bm))"
    by simp_all
  from split have "set (free_frames bm) = insert fid (set (butlast (free_frames bm)))"
    by (metis Un_insert_right append_Nil2 list.simps(15) set_append)
  with s have 2: "insert fid (set (butlast (free_frames bm))) = free_set bm" by simp
  from assms(1) 1 2 show ?thesis
    by (simp add: holding_def bm_inv_def bm' frames_ok_def table_ok_def free_set_def)
qed

lemma get_free_frame_None:
  "get_free_frame bm = (None, bm') \<Longrightarrow> bm' = bm \<and> free_frames bm = []"
  by (auto simp: get_free_frame_def split: if_splits)

lemma inv_disk_update [simp]:
  "frames_ok (bm\<lparr>disk := d\<rparr>) = frames_ok bm"
  "table_ok (bm\<lparr>disk := d\<rparr>) = table_ok bm"
  "free_set (bm\<lparr>disk := d\<rparr>) = free_set bm"
  "bm_inv (bm\<lparr>disk := d\<rparr>) = bm_inv bm"
  "holding fid (bm\<lparr>disk := d\<rparr>) = holding fid bm"
  by (simp_all add: frames_ok_def table_ok_def free_set_def bm_inv_def holding_def)

lemma write_back_and_clear_frame_cases:
  assumes "fid < length (frames bm)"
    and "write_back_and_clear_frame io fid bm = (r, bm')"
  shows "(\<exists>e. r = Inl e \<and> bm' = bm\<lparr>disk := disk bm'\<rparr>) \<or>
         (r = Inr () \<and>
            bm' = bm\<lparr>disk := disk bm',
                     page_table := (case page_id (frames bm ! fid) of
                                      Some pid \<Rightarrow> (page_table bm)(pid := None)
                                    | None \<Rightarrow> page_table bm),
                     frames := (frames bm)[fid := (frames bm ! fid)
                                  \<lparr>page := None, page_id := None, is_dirty := False,
                                   access_frequency := 0\<rparr>],
                     evictions := evictions bm + 1\<rparr>)"
  using assms
  by (auto simp: write_back_and_clear_frame_def Let_def
      split: prod.splits sum.splits option.splits if_splits)

lemma cleared_frames_ok:
  assumes "frames_ok bm" "fid < pool_size bm"
  shows "frames_ok (bm\<lparr>disk := d, page_table := pt,
            frames := (frames bm)[fid := (frames bm ! fid)
                         \<lparr>page := None, page_id := None, is_dirty := False,
                          access_frequency := 0\<rparr>],
            evictions := ev\<rparr>)"
  using assms
  by (auto simp: frames_ok_def frame_ok_def nth_list_update)

lemma cleared_table_ok:
  assumes "frames_ok bm" "table_ok bm" "fid < pool_size bm"
    and "page_id (frames bm ! fid) = Some pid"
  shows "table_ok (bm\<lparr>disk := d, page_table := (page_table bm)(pid := None),
            frames := (frames bm)[fid := (frames bm ! fid)
                         \<lparr>page := None, page_id := None, is_dirty := False,
                          access_frequency := 0\<rparr>],
            evictions := ev\<rparr>)"
proof -
  from assms(1) have len: "length (frames bm) = pool_size bm"
    by (simp add: frames_ok_def)
  from assms(2) have t: "\<And>p f. page_table bm p = Some f \<longleftrightarrow>
      f < pool_size bm \<and> page_id (frames bm ! f) = Some p"
    by (simp add: table_ok_def)
  from t assms(3,4) have here: "page_table bm pid = Some fid" by simp
  have uniq: "f = fid" if "f < pool_size bm" "page_id (frames bm ! f) = Some pid" for f
  proof -
    from t that have "page_table bm pid = Some f" by simp
    with here show ?thesis by simp
  qed
  show ?thesis
    unfolding table_ok_def
  proof (intro allI)
    fix p f
    show "page_table (bm\<lparr>disk := d, page_table := (page_table bm)(pid := None),
            frames := (frames bm)[fid := (frames bm ! fid)
                         \<lparr>page := None, page_id := None, is_dirty := False,
                          access_frequency := 0\<rparr>],
            evictions := ev\<rparr>) p = Some f \<longleftrightarrow>
          f < pool_size (bm\<lparr>disk := d, page_table := (page_table bm)(pid := None),
            frames := (frames bm)[fid := (frames bm ! fid)
                         \<lparr>page := None, page_id := None, is_dirty := False,
                          access_frequency := 0\<rparr>],
            evictions := ev\<rparr>) \<and>
          page_id (frames (bm\<lparr>disk := d, page_table := (page_table bm)(pid := None),
            frames := (frames bm)[fid := (frames bm ! fid)
                         \<lparr>page := None, page_id := None, is_dirty := False,
                          access_frequency := 0\<rparr>],
            evictions := ev\<rparr>) ! f) = Some p"
    proof (cases "f = fid")
      case True
      with t here assms(3) len show ?thesis by auto
    next
      case False
      with t uniq assms(3) len show ?thesis by (auto simp: nth_list_update)
    qed
  qed
qed

lemma write_back_and_clear_frame_inv:
  assumes inv: "bm_inv bm" and fid: "fid < pool_size bm"
    and occ: "page (frames bm ! fid) \<noteq> None"
    and wb: "write_back_and_clear_frame io fid bm = (r, bm')"
  shows "case r of Inl e \<Rightarrow> bm_inv bm' | Inr u \<Rightarrow> holding fid bm'"
proof -
  from inv have fo: "frames_ok bm" and t: "table_ok bm"
    and d: "distinct (free_frames bm)" and s: "set (free_frames bm) = free_set bm"
    by (simp_all add: bm_inv_def)
  from fo have len: "length (frames bm) = pool_size bm"
    by (simp add: frames_ok_def)
  from fo fid have "frame_ok fid (frames bm ! fid)"
    by (simp add: frames_ok_def)
  with occ obtain pid where pid: "page_id (frames bm ! fid) = Some pid"
    by (auto simp: frame_ok_def split: option.splits)
  from occ fid s have notfree: "fid \<notin> set (free_frames bm)"
    by (simp add: free_set_def)
  from write_back_and_clear_frame_cases [OF _ wb] fid len
  consider (raised) e where "r = Inl e" "bm' = bm\<lparr>disk := disk bm'\<rparr>"
    | (cleared) "r = Inr ()"
        "bm' = bm\<lparr>disk := disk bm', page_table := (page_table bm)(pid := None),
                  frames := (frames bm)[fid := (frames bm ! fid)
                               \<lparr>page := None, page_id := None, is_dirty := False,
                                access_frequency := 0\<rparr>],
                  evictions := evictions bm + 1\<rparr>"
    using pid by auto
  then show ?thesis
  proof cases
    case raised
    from inv have "bm_inv (bm\<lparr>disk := disk bm'\<rparr>)" by simp
    with raised show ?thesis by simp
  next
    case cleared
    have 1: "frames_ok bm'"
      by (subst cleared(2)) (rule cleared_frames_ok [OF fo fid])
    have 2: "table_ok bm'"
      by (subst cleared(2)) (rule cleared_table_ok [OF fo t fid pid])
    have 3: "free_frames bm' = free_frames bm"
      by (subst cleared(2)) simp
    have 4: "free_set bm' = insert fid (free_set bm)"
      by (subst cleared(2)) (use fid len in \<open>auto simp: free_set_def nth_list_update\<close>)
    from 1 2 3 4 d s notfree show ?thesis
      by (simp add: cleared(1) holding_def)
  qed
qed

lemma bm_inv_occupied:
  assumes "bm_inv bm" "free_frames bm = []" "i < pool_size bm"
  shows "page (frames bm ! i) \<noteq> None"
  using assms by (auto simp: bm_inv_def free_set_def)

lemma bm_inv_frame_id:
  assumes "bm_inv bm" "i < pool_size bm"
  shows "frame_id (frames bm ! i) = i"
  using assms by (simp add: bm_inv_def frames_ok_def frame_ok_def)

lemma bm_inv_length: "bm_inv bm \<Longrightarrow> length (frames bm) = pool_size bm"
  by (simp add: bm_inv_def frames_ok_def)

lemma evict_fifo_inv:
  assumes inv: "bm_inv bm" and ev: "evict_fifo io bm = (r, bm')"
  shows "frame_result_ok r bm'"
proof (cases "find (\<lambda>frame. page frame \<noteq> None) (frames bm)")
  case None
  with ev have "r = Inr None" "bm' = bm"
    by (auto simp: evict_fifo_def)
  with inv show ?thesis
    by (simp add: frame_result_ok_def)
next
  case (Some frame)
  then obtain i where i: "i < length (frames bm)" "page (frames bm ! i) \<noteq> None"
      "frame = frames bm ! i"
    by (auto simp: find_Some_iff)
  from i(1) inv have i_lt: "i < pool_size bm" by (simp add: bm_inv_length)
  with inv i(3) have fid: "frame_id frame = i" by (simp add: bm_inv_frame_id)
  obtain r1 bm1 where wb: "write_back_and_clear_frame io i bm = (r1, bm1)"
    by (cases "write_back_and_clear_frame io i bm")
  from write_back_and_clear_frame_inv [OF inv i_lt i(2) wb]
  have post: "case r1 of Inl e \<Rightarrow> bm_inv bm1 | Inr u \<Rightarrow> holding i bm1" .
  from ev Some fid wb have "(r, bm') = (case r1 of Inl e \<Rightarrow> (Inl e, bm1)
      | Inr u \<Rightarrow> (Inr (Some i), bm1))"
    by (simp add: evict_fifo_def split: sum.splits)
  with post show ?thesis
    by (auto simp: frame_result_ok_def split: sum.splits)
qed

lemma bm_inv_clock_update:
  assumes "bm_inv bm" "i < pool_size bm"
  shows "bm_inv (bm\<lparr>clock_hand := h\<rparr>)"
    and "bm_inv (bm\<lparr>clock_hand := h,
            frames := (frames bm)[i := (frames bm ! i)\<lparr>clock_bit := False\<rparr>]\<rparr>)"
  using assms
  by (auto simp: bm_inv_def frames_ok_def frame_ok_def table_ok_def free_set_def
      nth_list_update split: option.splits)

lemma evict_clock_loop_inv:
  "bm_inv bm \<Longrightarrow> free_frames bm = [] \<Longrightarrow> evict_clock_loop io start_hand bm = (r, bm')
     \<Longrightarrow> frame_result_ok r bm'"
proof (induction io start_hand bm rule: evict_clock_loop.induct)
  case (1 io start_hand bm)
  note inv = \<open>bm_inv bm\<close> and nofree = \<open>free_frames bm = []\<close>
  note ev = \<open>evict_clock_loop io start_hand bm = (r, bm')\<close>
  show ?case
  proof (cases "length (frames bm) \<le> clock_hand bm \<or> pool_size bm = 0")
    case True
    have "evict_clock_loop io start_hand bm =
            (if length (frames bm) \<le> clock_hand bm then (Inl IndexError, bm)
             else (Inl ZeroDivisionError, bm))"
      using True by (subst evict_clock_loop.simps) auto
    with ev have "bm' = bm" "isl r"
      by (auto split: if_splits)
    with inv show ?thesis
      by (cases r) (simp_all add: frame_result_ok_def)
  next
    case False
    then have hand: "clock_hand bm < length (frames bm)" and ps: "pool_size bm \<noteq> 0"
      by simp_all
    from hand inv have hand_lt: "clock_hand bm < pool_size bm"
      by (simp add: bm_inv_length)
    define frame where "frame = frames bm ! clock_hand bm"
    define bm1 where "bm1 = bm\<lparr>clock_hand := (clock_hand bm + 1) mod pool_size bm\<rparr>"
    define bm2 where "bm2 = bm1\<lparr>frames := (frames bm1)[clock_hand bm :=
                                  frame\<lparr>clock_bit := False\<rparr>]\<rparr>"
    have step: "evict_clock_loop io start_hand bm =
        (if is_free frame then (Inr (Some (frame_id frame)), bm1)
         else if clock_bit frame
         then (if clock_hand bm2 = start_hand then (Inr None, bm2)
               else evict_clock_loop io start_hand bm2)
         else (case write_back_and_clear_frame io (frame_id frame) bm1 of
                 (Inl e, bm') \<Rightarrow> (Inl e, bm')
               | (Inr u, bm') \<Rightarrow> (Inr (Some (frame_id frame)), bm')))"
      using False
      apply (subst evict_clock_loop.simps)
      apply (simp only: de_Morgan_disj if_False Let_def)
      unfolding frame_def bm1_def bm2_def
      apply (simp only: if_False)
      done
    from bm_inv_occupied [OF inv nofree hand_lt]
    have occ: "\<not> is_free frame" by (simp add: is_free_def frame_def)
    from bm_inv_frame_id [OF inv hand_lt]
    have fid: "frame_id frame = clock_hand bm" by (simp add: frame_def)
    have inv1: "bm_inv bm1"
      unfolding bm1_def by (rule bm_inv_clock_update(1) [OF inv hand_lt])
    have inv2: "bm_inv bm2"
      unfolding bm2_def bm1_def frame_def
      using bm_inv_clock_update(2) [OF inv hand_lt] by simp
    have nofree2: "free_frames bm2 = []"
      by (simp add: bm2_def bm1_def nofree)
    show ?thesis
    proof (cases "clock_bit frame")
      case True
      show ?thesis
      proof (cases "clock_hand bm2 = start_hand")
        case same: True
        from ev occ True same have "r = Inr None" "bm' = bm2"
          unfolding step by simp_all
        with inv2 show ?thesis by (simp add: frame_result_ok_def)
      next
        case other: False
        from ev occ True other
        have rec: "evict_clock_loop io start_hand bm2 = (r, bm')"
          unfolding step by simp
        from hand ps occ True other
        show ?thesis
          by (intro "1.IH" [OF _ _ frame_def bm1_def _ _ bm2_def _ inv2 nofree2 rec]) simp_all
      qed
    next
      case False
      obtain r1 bm3 where wb: "write_back_and_clear_frame io (clock_hand bm) bm1 = (r1, bm3)"
        by (cases "write_back_and_clear_frame io (clock_hand bm) bm1")
      have "clock_hand bm < pool_size bm1" "page (frames bm1 ! clock_hand bm) \<noteq> None"
        using hand_lt occ by (simp_all add: bm1_def is_free_def frame_def)
      from write_back_and_clear_frame_inv [OF inv1 this wb]
      have post: "case r1 of Inl e \<Rightarrow> bm_inv bm3 | Inr u \<Rightarrow> holding (clock_hand bm) bm3" .
      from ev occ False fid wb
      have "(r, bm') = (case r1 of Inl e \<Rightarrow> (Inl e, bm3)
          | Inr u \<Rightarrow> (Inr (Some (clock_hand bm)), bm3))"
        unfolding step by (simp split: sum.splits)
      with post show ?thesis
        by (auto simp: frame_result_ok_def split: sum.splits)
    qed
  qed
qed

lemma write_back_and_clear_frame_table:
  assumes wb: "write_back_and_clear_frame io fid bm = (r, bm')"
    and none: "page_table bm p = None"
  shows "page_table bm' p = None"
proof (cases "fid < length (frames bm)")
  case True
  from write_back_and_clear_frame_cases [OF True wb]
  have "page_table bm' = page_table bm \<or>
        page_table bm' = (case page_id (frames bm ! fid) of
                            Some pid \<Rightarrow> (page_table bm)(pid := None)
                          | None \<Rightarrow> page_table bm)"
  proof (elim disjE exE conjE)
    fix e assume "bm' = bm\<lparr>disk := disk bm'\<rparr>"
    then have "page_table bm' = page_table (bm\<lparr>disk := disk bm'\<rparr>)" by simp
    then show ?thesis by simp
  next
    assume eq: "bm' = bm\<lparr>disk := disk bm',
        page_table := (case page_id (frames bm ! fid) of
                         Some pid \<Rightarrow> (page_table bm)(pid := None)
                       | None \<Rightarrow> page_table bm),
        frames := (frames bm)[fid := (frames bm ! fid)
                     \<lparr>page := None, page_id := None, is_dirty := False,
                      access_frequency := 0\<rparr>],
        evictions := evictions bm + 1\<rparr>"
    have "page_table bm' = (case page_id (frames bm ! fid) of
                            Some pid \<Rightarrow> (page_table bm)(pid := None)
                          | None \<Rightarrow> page_table bm)"
      by (subst eq) simp
    then show ?thesis by simp
  qed
  with none show ?thesis
    by (auto split: option.splits)
next
  case False
  with wb have "bm' = bm"
    by (simp add: write_back_and_clear_frame_def)
  with none show ?thesis by simp
qed

lemma evict_fifo_table:
  assumes ev: "evict_fifo io bm = (r, bm')" and none: "page_table bm p = None"
  shows "page_table bm' p = None"
proof (cases "find (\<lambda>frame. page frame \<noteq> None) (frames bm)")
  case None
  with ev have "bm' = bm" by (auto simp: evict_fifo_def)
  with none show ?thesis by simp
next
  case (Some frame)
  obtain r1 bm1 where wb: "write_back_and_clear_frame io (frame_id frame) bm = (r1, bm1)"
    by (cases "write_back_and_clear_frame io (frame_id frame) bm")
  from ev Some wb have "bm' = bm1"
    by (cases r1) (simp_all add: evict_fifo_def)
  with write_back_and_clear_frame_table [OF wb none] show ?thesis by simp
qed

lemma evict_clock_loop_step:
  assumes "clock_hand bm < length (frames bm)" "pool_size bm \<noteq> 0"
  shows "evict_clock_loop io start_hand bm =
     (let frame = frames bm ! clock_hand bm;
          bm1 = bm\<lparr>clock_hand := (clock_hand bm + 1) mod pool_size bm\<rparr>
      in if is_free frame then (Inr (Some (frame_id frame)), bm1)
         else if clock_bit frame
         then (let bm2 = bm1\<lparr>frames := (frames bm1)[clock_hand bm :=
                                                 frame\<lparr>clock_bit := False\<rparr>]\<rparr>
               in if clock_hand bm2 = start_hand then (Inr None, bm2)
                  else evict_clock_loop io start_hand bm2)
         else (case write_back_and_clear_frame io (frame_id frame) bm1 of
                 (Inl e, bm') \<Rightarrow> (Inl e, bm')
               | (Inr u, bm') \<Rightarrow> (Inr (Some (frame_id frame)), bm')))"
proof -
  from assms have c: "\<not> length (frames bm) \<le> clock_hand bm" "\<not> pool_size bm = 0"
    by simp_all
  show ?thesis
    by (subst evict_clock_loop.simps) (simp only: c if_False)
qed

lemma evict_clock_loop_stop:
  assumes "length (frames bm) \<le> clock_hand bm \<or> pool_size bm = 0"
  shows "evict_clock_loop io start_hand bm =
           (if length (frames bm) \<le> clock_hand bm then (Inl IndexError, bm)
            else (Inl ZeroDivisionError, bm))"
proof (cases "length (frames bm) \<le> clock_hand bm")
  case True
  then show ?thesis
    by (subst evict_clock_loop.simps) (simp only: if_True)
next
  case False
  with assms have z: "pool_size bm = 0" by simp
  show ?thesis
    by (subst evict_clock_loop.simps) (simp only: False z if_True if_False simp_thms)
qed

lemma evict_clock_loop_unfold:
  assumes "clock_hand bm < length (frames bm)" "pool_size bm \<noteq> 0"
    and "frame = frames bm ! clock_hand bm"
    and "bm1 = bm\<lparr>clock_hand := (clock_hand bm + 1) mod pool_size bm\<rparr>"
    and "bm2 = bm1\<lparr>frames := (frames bm1)[clock_hand bm := frame\<lparr>clock_bit := False\<rparr>]\<rparr>"
  shows "evict_clock_loop io start_hand bm =
     (if is_free frame then (Inr (Some (frame_id frame)), bm1)
      else if clock_bit frame
      then (if clock_hand bm2 = start_hand then (Inr None, bm2)
            else evict_clock_loop io start_hand bm2)
      else (case write_back_and_clear_frame io (frame_id frame) bm1 of
              (Inl e, bm') \<Rightarrow> (Inl e, bm')
            | (Inr u, bm') \<Rightarrow> (Inr (Some (frame_id frame)), bm')))"
  unfolding assms(3-5) evict_clock_loop_step [OF assms(1,2)] Let_def ..

lemma evict_clock_loop_table:
  "evict_clock_loop io start_hand bm = (r, bm') \<Longrightarrow> page_table bm p = None
     \<Longrightarrow> page_table bm' p = None"
proof (induction io start_hand bm rule: evict_clock_loop.induct)
  case (1 io start_hand bm)
  note ev = "1.prems"(1) and none = "1.prems"(2)
  show ?case
  proof (cases "length (frames bm) \<le> clock_hand bm \<or> pool_size bm = 0")
    case True
    from ev have "bm' = bm"
      unfolding evict_clock_loop_stop [OF True] by (simp split: if_splits)
    with none show ?thesis by simp
  next
    case False
    then have hand: "clock_hand bm < length (frames bm)" and ps: "pool_size bm \<noteq> 0"
      by simp_all
    define frame where "frame = frames bm ! clock_hand bm"
    define bm1 where "bm1 = bm\<lparr>clock_hand := (clock_hand bm + 1) mod pool_size bm\<rparr>"
    define bm2 where "bm2 = bm1\<lparr>frames := (frames bm1)[clock_hand bm :=
                                  frame\<lparr>clock_bit := False\<rparr>]\<rparr>"
    note step = evict_clock_loop_unfold [OF hand ps frame_def bm1_def bm2_def]
    have t1: "page_table bm1 p = None" and t2: "page_table bm2 p = None"
      using none by (simp_all add: bm1_def bm2_def)
    show ?thesis
    proof (cases "is_free frame")
      case True
      from ev have "bm' = bm1"
        unfolding step using True by simp
      with t1 show ?thesis by simp
    next
      case nf: False
      show ?thesis
      proof (cases "clock_bit frame")
        case True
        show ?thesis
        proof (cases "clock_hand bm2 = start_hand")
          case same: True
          from ev have "bm' = bm2"
            unfolding step using nf True same by simp
          with t2 show ?thesis by simp
        next
          case other: False
          from ev have rec: "evict_clock_loop io start_hand bm2 = (r, bm')"
            unfolding step using nf True other by simp
          from hand ps nf True other
          show ?thesis
            by (intro "1.IH" [OF _ _ frame_def bm1_def _ _ bm2_def _ rec t2]) simp_all
        qed
      next
        case False
        obtain r1 bm3 where wb: "write_back_and_clear_frame io (frame_id frame) bm1 = (r1, bm3)"
          by (cases "write_back_and_clear_frame io (frame_id frame) bm1")
        from ev have "bm' = bm3"
          unfolding step using nf False wb by (cases r1) simp_all
        with write_back_and_clear_frame_table [OF wb t1] show ?thesis by simp
      qed
    qed
  qed
qed

lemma evict_page_table:
  assumes ev: "evict_page io bm = (r, bm')" and none: "page_table bm p = None"
  shows "page_table bm' p = None"
proof -
  consider (lru) "evict_lru bm = (r, bm')" | (clock) "evict_clock io bm = (r, bm')"
    | (fifo) "evict_fifo io bm = (r, bm')"
    using ev by (auto simp: evict_page_def split: if_splits)
  then show ?thesis
  proof cases
    case lru
    then have "bm' = bm" by (simp add: evict_lru_def)
    with none show ?thesis by simp
  next
    case clock
    then show ?thesis
      unfolding evict_clock_def using none by (rule evict_clock_loop_table)
  next
    case fifo
    then show ?thesis using none by (rule evict_fifo_table)
  qed
qed

lemma obtain_frame_table:
  assumes ob: "obtain_frame io bm = (r, bm')" and none: "page_table bm p = None"
  shows "page_table bm' p = None"
proof (cases "free_frames bm = []")
  case True
  then have "get_free_frame bm = (None, bm)" by (simp add: get_free_frame_def)
  with ob have "evict_page io bm = (r, bm')" by (simp add: obtain_frame_def)
  then show ?thesis using none by (rule evict_page_table)
next
  case False
  then have "get_free_frame bm =
      (Some (last (free_frames bm)), bm\<lparr>free_frames := butlast (free_frames bm)\<rparr>)"
    by (simp add: get_free_frame_def)
  with ob have "bm' = bm\<lparr>free_frames := butlast (free_frames bm)\<rparr>"
    by (simp add: obtain_frame_def)
  with none show ?thesis by simp
qed

lemma evict_page_inv:
  assumes "bm_inv bm" "free_frames bm = []" "evict_page io bm = (r, bm')"
  shows "frame_result_ok r bm'"
proof -
  consider (lru) "evict_lru bm = (r, bm')" | (clock) "evict_clock io bm = (r, bm')"
    | (fifo) "evict_fifo io bm = (r, bm')"
    using assms(3) by (auto simp: evict_page_def split: if_splits)
  then show ?thesis
  proof cases
    case lru
    with assms(1) show ?thesis
      by (auto simp: evict_lru_def frame_result_ok_def)
  next
    case clock
    then show ?thesis
      unfolding evict_clock_def by (rule evict_clock_loop_inv [OF assms(1,2)])
  next
    case fifo
    then show ?thesis by (rule evict_fifo_inv [OF assms(1)])
  qed
qed

lemma obtain_frame_inv:
  assumes inv: "bm_inv bm" and ob: "obtain_frame io bm = (r, bm')"
  shows "frame_result_ok r bm'"
proof (cases "get_free_frame bm")
  case (Pair fr bm1)
  show ?thesis
  proof (cases fr)
    case None
    with Pair have "bm1 = bm" "free_frames bm = []"
      using get_free_frame_None by blast+
    moreover from ob Pair None have "evict_page io bm1 = (r, bm')"
      by (simp add: obtain_frame_def)
    ultimately show ?thesis
      using evict_page_inv [OF inv] by simp
  next
    case (Some fid)
    with Pair inv have "holding fid bm1"
      using get_free_frame_Some by blast
    moreover from ob Pair Some have "r = Inr (Some fid)" "bm' = bm1"
      by (simp_all add: obtain_frame_def)
    ultimately show ?thesis
      by (simp add: frame_result_ok_def)
  qed
qed

lemma DiskPage_from_bytes_full:
  "length data = PAGE_SIZE \<Longrightarrow>
     \<exists>pg. DiskPage_from_bytes pid data = Inr pg \<and> DiskPage.page_id pg = pid"
  by (simp add: DiskPage_from_bytes_def)

lemma read_page_cases:
  assumes "read_page io pid dm = (r, dm')"
  shows "(r = Inr None \<and> dm' = dm) \<or>
         (r = Inl ValueError \<and> dm' = dm \<and> \<not> io_fault io \<and>
            \<not> off_t_ok (pid * int PAGE_SIZE)) \<or>
         (\<exists>pg. r = Inr (Some pg) \<and> DiskPage.page_id pg = pid \<and>
            dm' = dm\<lparr>read_count := read_count dm + 1,
                      total_read_time := float_add (total_read_time dm) (io_elapsed io),
                      bytes_read := bytes_read dm + PAGE_SIZE\<rparr>)"
proof (cases "io_fault io \<or> \<not> off_t_ok (pid * int PAGE_SIZE) \<or> pid < 0")
  case True
  then consider (fault) "io_fault io"
    | (unfit) "\<not> io_fault io" "\<not> off_t_ok (pid * int PAGE_SIZE)"
    | (negative) "\<not> io_fault io" "off_t_ok (pid * int PAGE_SIZE)" "pid < 0"
    by blast
  then show ?thesis
  proof cases
    case fault
    with assms show ?thesis by (simp add: read_page_def)
  next
    case unfit
    with assms show ?thesis by (simp add: read_page_def)
  next
    case negative
    with assms show ?thesis by (simp add: read_page_def)
  qed
next
  case False
  define data where "data = take PAGE_SIZE (drop (nat pid * PAGE_SIZE) (file_contents dm))"
  show ?thesis
  proof (cases "length data = PAGE_SIZE")
    case True
    from DiskPage_from_bytes_full [OF True, of pid] obtain pg
      where pg: "DiskPage_from_bytes pid data = Inr pg" "DiskPage.page_id pg = pid"
      by blast
    from assms False True pg show ?thesis
      by (auto simp: read_page_def Let_def data_def[symmetric])
  next
    case short: False
    with assms False show ?thesis
      by (simp add: read_page_def Let_def data_def[symmetric])
  qed
qed

lemma read_and_install_inv:
  assumes hold: "holding fid bm" and miss: "page_table bm pid = None"
    and fits: "off_t_ok (pid * int PAGE_SIZE)"
    and ri: "read_and_install io pid fid bm = (r, bm')"
  shows "bm_inv bm'"
proof -
  from hold have fo: "frames_ok bm" and t: "table_ok bm"
    and d: "distinct (free_frames bm)" and nin: "fid \<notin> set (free_frames bm)"
    and s: "insert fid (set (free_frames bm)) = free_set bm"
    by (simp_all add: holding_def)
  from s have fid: "fid < pool_size bm" and free: "page (frames bm ! fid) = None"
    by (auto simp: free_set_def)
  from fo have len: "length (frames bm) = pool_size bm"
    by (simp add: frames_ok_def)
  obtain r1 d1 where rp: "read_page io pid (disk bm) = (r1, d1)"
    by (cases "read_page io pid (disk bm)")
  from read_page_cases [OF rp] fits
  consider (absent) "r1 = Inr None" | (present) pg where "r1 = Inr (Some pg)"
      "DiskPage.page_id pg = pid"
    by blast
  then show ?thesis
  proof cases
    case absent
    with ri rp nin have bm': "bm' = bm\<lparr>disk := d1, free_frames := free_frames bm @ [fid]\<rparr>"
      by (simp add: read_and_install_def)
    from fo t d nin s show ?thesis
      by (simp add: bm' bm_inv_def frames_ok_def table_ok_def free_set_def)
  next
    case present
    with ri rp fid len
    have bm': "bm' = bm\<lparr>disk := d1,
        frames := (frames bm)[fid := (frames bm ! fid)
                     \<lparr>page := Some pg, page_id := Some pid, is_dirty := False,
                      last_accessed := access_counter bm, access_frequency := 1\<rparr>],
        page_table := (page_table bm)(pid \<mapsto> fid)\<rparr>"
      by (simp add: read_and_install_def)
    have nowhere: "page_id (frames bm ! f) \<noteq> Some pid" if "f < pool_size bm" for f
    proof
      assume "page_id (frames bm ! f) = Some pid"
      with t that have "page_table bm pid = Some f" by (simp add: table_ok_def)
      with miss show False by simp
    qed
    have 1: "frames_ok bm'"
      using fo fid present(2)
      by (auto simp: bm' frames_ok_def frame_ok_def nth_list_update)
    have 2: "table_ok bm'"
      unfolding table_ok_def
    proof (intro allI)
      fix p f
      show "page_table bm' p = Some f \<longleftrightarrow>
              f < pool_size bm' \<and> page_id (frames bm' ! f) = Some p"
      proof (cases "f = fid")
        case True
        have "page_table bm p \<noteq> Some fid"
        proof
          assume "page_table bm p = Some fid"
          with t have "page_id (frames bm ! fid) = Some p" by (simp add: table_ok_def)
          moreover from fo fid free have "page_id (frames bm ! fid) = None"
            by (auto simp: frames_ok_def frame_ok_def)
          ultimately show False by simp
        qed
        with True fid len show ?thesis
          by (auto simp: bm')
      next
        case False
        with t nowhere len show ?thesis
          by (auto simp: bm' table_ok_def nth_list_update)
      qed
    qed
    have 3: "free_set bm' = free_set bm - {fid}"
      using fid len by (auto simp: bm' free_set_def nth_list_update)
    have 4: "free_frames bm' = free_frames bm"
      by (simp add: bm')
    from s nin have "set (free_frames bm) = free_set bm - {fid}" by auto
    with 1 2 3 4 d show ?thesis
      by (simp add: bm_inv_def)
  qed
qed

lemma load_page_from_disk_inv:
  assumes inv: "bm_inv bm" and miss: "page_table bm pid = None"
    and fits: "off_t_ok (pid * int PAGE_SIZE)"
    and ld: "load_page_from_disk env pid bm = (r, bm')"
  shows "bm_inv bm'"
proof -
  obtain r1 bm1 where ob: "obtain_frame (on_write env) bm = (r1, bm1)"
    by (cases "obtain_frame (on_write env) bm")
  from obtain_frame_inv [OF inv ob] have post: "frame_result_ok r1 bm1" .
  show ?thesis
  proof (cases r1)
    case (Inl e)
    with ld ob post show ?thesis
      by (simp add: load_page_from_disk_def frame_result_ok_def)
  next
    case (Inr fr)
    show ?thesis
    proof (cases fr)
      case None
      with Inr ld ob post show ?thesis
        by (simp add: load_page_from_disk_def frame_result_ok_def)
    next
      case (Some fid)
      with Inr post have hold: "holding fid bm1"
        by (simp add: frame_result_ok_def)
      from Some Inr ld ob have ri: "read_and_install (on_read env) pid fid bm1 = (r, bm')"
        by (simp add: load_page_from_disk_def)
      from obtain_frame_table [OF ob miss] have "page_table bm1 pid = None" .
      from read_and_install_inv [OF hold this fits ri] show ?thesis .
    qed
  qed
qed

lemma bm_inv_counters [simp]:
  "bm_inv (bm\<lparr>access_counter := c\<rparr>) = bm_inv bm"
  "bm_inv (bm\<lparr>misses := m\<rparr>) = bm_inv bm"
  "bm_inv (bm\<lparr>hits := h\<rparr>) = bm_inv bm"
  by (simp_all add: bm_inv_def frames_ok_def table_ok_def free_set_def)

lemma bm_inv_touch:
  assumes "bm_inv bm" "fid < pool_size bm"
  shows "bm_inv (bm\<lparr>frames := (frames bm)[fid := (frames bm ! fid)
            \<lparr>last_accessed := a, access_frequency := q, clock_bit := True\<rparr>]\<rparr>)"
  using assms
  by (auto simp: bm_inv_def frames_ok_def frame_ok_def table_ok_def free_set_def
      nth_list_update split: option.splits)

lemma get_page_inv:
  assumes inv: "bm_inv bm" and fits: "off_t_ok (pid * int PAGE_SIZE)"
    and gp: "get_page env pid bm = (r, bm')"
  shows "bm_inv bm'"
proof -
  define bm1 where "bm1 = bm\<lparr>access_counter := access_counter bm + 1\<rparr>"
  have inv1: "bm_inv bm1" using inv by (simp add: bm1_def)
  show ?thesis
  proof (cases "page_table bm1 pid")
    case None
    with gp have ld: "load_page_from_disk env pid (bm1\<lparr>misses := misses bm1 + 1\<rparr>) = (r, bm')"
      by (simp add: get_page_def Let_def bm1_def)
    have "bm_inv (bm1\<lparr>misses := misses bm1 + 1\<rparr>)"
      "page_table (bm1\<lparr>misses := misses bm1 + 1\<rparr>) pid = None"
      using inv1 None by simp_all
    from load_page_from_disk_inv [OF this fits ld] show ?thesis .
  next
    case (Some fid)
    with inv1 have fid: "fid < pool_size bm1"
      by (simp add: bm_inv_def table_ok_def)
    with inv1 have len: "\<not> length (frames bm1) \<le> fid"
      by (simp add: bm_inv_length)
    from gp Some len
    have "bm' = (bm1\<lparr>frames := (frames bm1)[fid := (frames bm1 ! fid)
            \<lparr>last_accessed := access_counter bm1,
             access_frequency := access_frequency (frames bm1 ! fid) + 1,
             clock_bit := True\<rparr>]\<rparr>)\<lparr>hits := hits bm1 + 1\<rparr>"
      by (simp add: get_page_def Let_def bm1_def)
    with bm_inv_touch [OF inv1 fid] show ?thesis by simp
  qed
qed

lemma get_pages_inv:
  "bm_inv bm \<Longrightarrow> \<forall>(env, pid) \<in> set calls. off_t_ok (pid * int PAGE_SIZE)
     \<Longrightarrow> bm_inv (snd (get_pages calls bm))"
proof (induction calls arbitrary: bm)
  case Nil
  then show ?case by simp
next
  case (Cons c calls)
  obtain env pid where c: "c = (env, pid)" by (cases c)
  obtain r bm1 where gp: "get_page env pid bm = (r, bm1)"
    by (cases "get_page env pid bm")
  from Cons.prems(2) c have fits: "off_t_ok (pid * int PAGE_SIZE)"
    and rest: "\<forall>(env, pid) \<in> set calls. off_t_ok (pid * int PAGE_SIZE)"
    by simp_all
  from get_page_inv [OF Cons.prems(1) fits gp] have "bm_inv bm1" .
  from Cons.IH [OF this rest] show ?case
    by (cases "get_pages calls bm1") (simp add: c gp)
qed

lemma bm_inv_injective:
  assumes "bm_inv bm"
  shows "inj_on (page_table bm) (dom (page_table bm))"
proof (rule inj_onI)
  fix p q
  assume p: "p \<in> dom (page_table bm)" and q: "q \<in> dom (page_table bm)"
    and eq: "page_table bm p = page_table bm q"
  from p obtain f where f: "page_table bm p = Some f" by auto
  with eq have g: "page_table bm q = Some f" by simp
  from assms f g have "page_id (frames bm ! f) = Some p" "page_id (frames bm ! f) = Some q"
    by (simp_all add: bm_inv_def table_ok_def)
  then show "p = q" by simp
qed

lemma bm_inv_entry:
  assumes "bm_inv bm"
  shows "page_table bm pid = Some fid \<longleftrightarrow>
           fid < pool_size bm \<and> page_id (frames bm ! fid) = Some pid \<and>
           (\<exists>pg. page (frames bm ! fid) = Some pg \<and> DiskPage.page_id pg = pid)"
proof -
  from assms have t: "page_table bm pid = Some fid \<longleftrightarrow>
      fid < pool_size bm \<and> page_id (frames bm ! fid) = Some pid"
    by (simp add: bm_inv_def table_ok_def)
  have "\<exists>pg. page (frames bm ! fid) = Some pg \<and> DiskPage.page_id pg = pid"
    if "fid < pool_size bm" "page_id (frames bm ! fid) = Some pid"
  proof -
    from assms that(1) have "frame_ok fid (frames bm ! fid)"
      by (simp add: bm_inv_def frames_ok_def)
    with that(2) show ?thesis
      by (cases "page (frames bm ! fid)") (simp_all add: frame_ok_def)
  qed
  with t show ?thesis by blast
qed

lemma bm_inv_count:
  assumes "bm_inv bm"
  shows "length (free_frames bm) + length (filter (\<lambda>f. page f \<noteq> None) (frames bm))
           = pool_size bm"
proof -
  from assms have len: "length (frames bm) = pool_size bm"
    and d: "distinct (free_frames bm)" and s: "set (free_frames bm) = free_set bm"
    by (simp_all add: bm_inv_def frames_ok_def)
  have "length (free_frames bm) = card (free_set bm)"
    using d s distinct_card by fastforce
  also have "free_set bm = {i. i < length (frames bm) \<and> \<not> page (frames bm ! i) \<noteq> None}"
    by (simp add: free_set_def len)
  finally have 1: "length (free_frames bm) =
      card {i. i < length (frames bm) \<and> \<not> page (frames bm ! i) \<noteq> None}" .
  have 2: "length (filter (\<lambda>f. page f \<noteq> None) (frames bm)) =
      card {i. i < length (frames bm) \<and> page (frames bm ! i) \<noteq> None}"
    by (rule length_filter_conv_card)
  have "length (filter (\<lambda>f. page f \<noteq> None) (frames bm)) +
        length (filter (\<lambda>f. \<not> page f \<noteq> None) (frames bm)) = length (frames bm)"
    by (rule sum_length_filter_compl)
  moreover have "length (filter (\<lambda>f. \<not> page f \<noteq> None) (frames bm)) =
      card {i. i < length (frames bm) \<and> \<not> page (frames bm ! i) \<noteq> None}"
    by (rule length_filter_conv_card)
  ultimately show ?thesis using 1 len by simp
qed

lemma slice_replicate:
  "a \<le> b \<Longrightarrow> b \<le> n \<Longrightarrow> slice a b (replicate n x) = replicate (b - a) x"
  by (simp add: slice_def min_def)

lemma slot_within_page:
  assumes "i < RECORDS_PER_PAGE"
  shows "i * RECORD_SIZE + RECORD_SIZE \<le> PAGE_SIZE"
proof -
  from assms have "Suc i \<le> 128"
    by (simp add: RECORDS_PER_PAGE_def PAGE_SIZE_def RECORD_SIZE_def)
  then have "Suc i * 32 \<le> 128 * 32"
    by (rule mult_le_mono1)
  then show ?thesis
    by (simp add: PAGE_SIZE_def RECORD_SIZE_def)
qed

lemma unpack_I_zeros: "unpack_I (replicate 4 0) = 0"
proof -
  have "replicate 4 (0::byte) = [0, 0, 0, 0]"
    by (simp add: numeral_eq_Suc)
  then show ?thesis
    by (simp add: unpack_I_def)
qed

lemma read_slot_zero:
  assumes "i < RECORDS_PER_PAGE"
  shows "read_slot (replicate PAGE_SIZE 0) i = []"
proof -
  have "slice (i * RECORD_SIZE) (i * RECORD_SIZE + RECORD_SIZE) (replicate PAGE_SIZE (0::byte))
      = replicate RECORD_SIZE 0"
    using slice_replicate [OF _ slot_within_page [OF assms], of "i * RECORD_SIZE" "0::byte"]
    by simp
  moreover have "min 4 RECORD_SIZE = 4"
    by (simp add: RECORD_SIZE_def)
  ultimately show ?thesis
    by (simp add: read_slot_def Let_def unpack_I_zeros)
qed

lemma DiskPage_from_bytes_zero:
  "DiskPage_from_bytes pid (replicate PAGE_SIZE 0) = Inr \<lparr>DiskPage.page_id = pid, orders = []\<rparr>"
proof -
  have "map (read_slot (replicate PAGE_SIZE 0)) [0..<RECORDS_PER_PAGE]
          = map (\<lambda>i. []) [0..<RECORDS_PER_PAGE]"
    by (rule map_cong) (simp_all add: read_slot_zero)
  then show ?thesis
    by (simp add: DiskPage_from_bytes_def)
qed

lemma read_page_zero_file:
  assumes "file_contents dm = replicate (n * PAGE_SIZE) 0" "0 \<le> pid" "nat pid < n"
    and "int n \<le> 2 ^ 51" and "\<not> io_fault io"
  shows "read_page io pid dm =
           (Inr (Some \<lparr>DiskPage.page_id = pid, orders = []\<rparr>),
            dm\<lparr>read_count := read_count dm + 1,
               total_read_time := float_add (total_read_time dm) (io_elapsed io),
               bytes_read := bytes_read dm + PAGE_SIZE\<rparr>)"
proof -
  from assms(3) have "Suc (nat pid) \<le> n" by simp
  then have "Suc (nat pid) * PAGE_SIZE \<le> n * PAGE_SIZE"
    by (rule mult_le_mono1)
  then have "PAGE_SIZE \<le> n * PAGE_SIZE - nat pid * PAGE_SIZE"
    by simp
  then have "min PAGE_SIZE (n * PAGE_SIZE - nat pid * PAGE_SIZE) = PAGE_SIZE"
    by simp
  then have data: "take PAGE_SIZE (drop (nat pid * PAGE_SIZE) (file_contents dm))
      = replicate PAGE_SIZE 0"
    by (simp add: assms(1))
  from assms(2,3,4) have "pid < 2 ^ 51" by linarith
  with assms(2) have fits: "off_t_ok (pid * int PAGE_SIZE)"
    by (simp add: off_t_ok_def PAGE_SIZE_def)
  from assms(2,5) fits data show ?thesis
    by (simp add: read_page_def DiskPage_from_bytes_zero)
qed

section \<open>Claims about the buffer manager\<close>

lemma upt_0_1: "[0..<1] = [0]"
  by simp

lemma upt_0_2: "[0..<2] = [0, Suc 0]"
  by (simp add: numeral_2_eq_2)

lemmas eval_defs = get_page_def load_page_from_disk_def obtain_frame_def get_free_frame_def
  evict_page_def evict_fifo_def evict_lru_def evict_clock_def write_back_and_clear_frame_def
  read_and_install_def new_BufferManager_def new_BufferFrame_def zero_store_def
  new_DiskManager_def quiet_def is_free_def Let_def upt_0_1 upt_0_2
  read_page_zero_file [where n = 3] evict_clock_loop.simps

text \<open>
  For page ids whose byte offset fits a file offset the pool stays consistent: after any
  sequence of \<open>get_page\<close> calls on a fresh manager, whatever the policy, the store and the
  I/O outcomes, the page table is injective, it has an entry \<open>pid \<mapsto> fid\<close> exactly when frame
  \<open>fid\<close> holds page \<open>pid\<close>, and the free frames and the occupied frames are \<open>pool_size\<close>
  together.
\<close>

lemma get_pages_fitting_pool_consistent:
  assumes "\<forall>(env, pid) \<in> set calls. off_t_ok (pid * int PAGE_SIZE)"
  shows "let bm = snd (get_pages calls (new_BufferManager d n pol)) in
     inj_on (page_table bm) (dom (page_table bm)) \<and>
     (\<forall>pid fid. page_table bm pid = Some fid \<longleftrightarrow>
        fid < pool_size bm \<and> page_id (frames bm ! fid) = Some pid \<and>
        (\<exists>pg. page (frames bm ! fid) = Some pg \<and> DiskPage.page_id pg = pid)) \<and>
     length (free_frames bm) + length (filter (\<lambda>f. page f \<noteq> None) (frames bm))
       = pool_size bm"
proof -
  have "bm_inv (snd (get_pages calls (new_BufferManager d n pol)))"
    using new_BufferManager_inv assms by (rule get_pages_inv)
  then show ?thesis
    using bm_inv_injective bm_inv_entry bm_inv_count by (simp add: Let_def)
qed

lemma read_page_unfit:
  "\<not> io_fault io \<Longrightarrow> \<not> off_t_ok (pid * int PAGE_SIZE)
     \<Longrightarrow> read_page io pid dm = (Inl ValueError, dm)"
  by (simp add: read_page_def)

lemma read_page_2_51:
  "\<not> io_fault io \<Longrightarrow> read_page io 2251799813685248 dm = (Inl ValueError, dm)"
  by (rule read_page_unfit) (simp_all add: off_t_ok_def PAGE_SIZE_def)

text \<open>
  C2 (the code departs from the claim). A fresh pool of two frames; the request for page
  \<open>2^51\<close>, whose byte offset \<open>2^63\<close> does not fit a file offset. \<open>get_page\<close> takes frame 1
  from the free list, \<open>read_page\<close> raises \<open>ValueError\<close> from \<open>seek\<close>, and the exception
  leaves \<open>get_page\<close> with frame 1 neither in the free list nor holding a page: one free frame
  and no occupied frame in a pool of two.
\<close>

theorem get_page_unfit_offset_loses_frame:
  "(let run = get_page quiet (2 ^ 51) (new_BufferManager (zero_store 3) 2 ''FIFO'');
        bm = snd run
    in fst run = Inl ValueError \<and>
       pool_size bm = 2 \<and> free_frames bm = [0] \<and>
       map page (frames bm) = [None, None] \<and> page_table bm = Map.empty \<and>
       length (free_frames bm) + length (filter (\<lambda>f. page f \<noteq> None) (frames bm)) = 1)"
  by (simp add: eval_defs read_page_2_51)

text \<open>
  C4 (the code departs from the claim). A pool of two frames under FIFO: page 0 is installed
  first (in frame 1, at access 1) and page 1 second (in frame 0, at access 2). The request
  for page 2 then evicts page 1, the occupant installed last, from frame 0, the lowest
  index; page 0, installed earliest, stays.
\<close>

theorem fifo_evicts_lowest_index_not_earliest:
  "(let bm2 = snd (get_pages [(quiet, 0), (quiet, 1)]
                 (new_BufferManager (zero_store 3) 2 ''FIFO''));
        bm3 = snd (get_page quiet 2 bm2)
    in page_table bm2 0 = Some 1 \<and> last_accessed (frames bm2 ! 1) = 1 \<and>
       page_table bm2 1 = Some 0 \<and> last_accessed (frames bm2 ! 0) = 2 \<and>
       free_frames bm2 = [] \<and>
       evictions bm3 = 1 \<and> page_table bm3 1 = None \<and>
       page_table bm3 0 = Some 1 \<and> page_table bm3 2 = Some 0)"
  by (simp add: eval_defs)

text \<open>
  C5 (the code departs from the claim). A pool of one frame under LRU over a store holding
  pages 0, 1 and 2: \<open>_evict_lru\<close> never selects a victim, so the requests for pages 1 and 2
  return \<open>None\<close>, page 0 stays in the pool and its second request is a hit: the outcomes
  are miss, miss, hit, miss.
\<close>

theorem lru_pattern_miss_miss_hit_miss:
  "(let run = get_pages [(quiet, 0), (quiet, 1), (quiet, 0), (quiet, 2)]
                (new_BufferManager (zero_store 3) 1 ''LRU'')
    in fst run = [Inr (Some \<lparr>DiskPage.page_id = 0, orders = []\<rparr>), Inr None,
                  Inr (Some \<lparr>DiskPage.page_id = 0, orders = []\<rparr>), Inr None] \<and>
       hits (snd run) = 1 \<and> misses (snd run) = 3 \<and> evictions (snd run) = 0 \<and>
       page_table (snd run) 0 = Some 0)"
  by (simp add: eval_defs)

text \<open>
  C3 (the code departs from the claim). A pool of two frames under CLOCK, both occupied and
  both with their clock bit set (each page was loaded and then hit), hand at 0. Eviction
  clears both bits, finds the hand back at its start and returns \<open>None\<close>: no frame is
  evicted, and the request for page 2, which the store holds, fails.
\<close>

theorem clock_all_bits_set_evicts_nothing:
  "(let bm = snd (get_pages [(quiet, 0), (quiet, 1), (quiet, 0), (quiet, 1)]
                 (new_BufferManager (zero_store 3) 2 ''CLOCK''))
    in free_frames bm = [] \<and> clock_hand bm = 0 \<and>
       map clock_bit (frames bm) = [True, True] \<and>
       map page_id (frames bm) = [Some 1, Some 0] \<and>
       fst (evict_clock (on_write quiet) bm) = Inr None \<and>
       map clock_bit (frames (snd (evict_clock (on_write quiet) bm))) = [False, False] \<and>
       map page_id (frames (snd (evict_clock (on_write quiet) bm))) = [Some 1, Some 0] \<and>
       evictions (snd (evict_clock (on_write quiet) bm)) = 0 \<and>
       fst (get_page quiet 2 bm) = Inr None)"
  by (simp add: eval_defs)

text \<open>
  For such page ids a miss whose read returns \<open>None\<close> gives the frame back: the frame obtained is in the
  free list again and holds no page, the page table has no entry for the page, and
  \<open>get_page\<close> returns \<open>None\<close>.
\<close>

lemma read_None_returns_frame:
  assumes inv: "bm_inv bm" and miss: "page_table bm pid = None"
    and fits: "off_t_ok (pid * int PAGE_SIZE)"
    and ob: "obtain_frame (on_write env)
               (bm\<lparr>access_counter := access_counter bm + 1, misses := misses bm + 1\<rparr>)
             = (Inr (Some fid), bm1)"
    and rd: "fst (read_page (on_read env) pid (disk bm1)) = Inr None"
  shows "fst (get_page env pid bm) = Inr None"
    and "free_frames (snd (get_page env pid bm)) = free_frames bm1 @ [fid]"
    and "frames (snd (get_page env pid bm)) = frames bm1"
    and "page (frames bm1 ! fid) = None"
    and "page_table (snd (get_page env pid bm)) pid = None"
    and "bm_inv (snd (get_page env pid bm))"
proof -
  define bm0 where
    "bm0 = bm\<lparr>access_counter := access_counter bm + 1, misses := misses bm + 1\<rparr>"
  have inv0: "bm_inv bm0" and miss0: "page_table bm0 pid = None"
    using inv miss by (simp_all add: bm0_def)
  from obtain_frame_inv [OF inv0 ob [folded bm0_def]] have hold: "holding fid bm1"
    by (simp add: frame_result_ok_def)
  from obtain_frame_table [OF ob [folded bm0_def] miss0]
  have miss1: "page_table bm1 pid = None" .
  from hold have nin: "fid \<notin> set (free_frames bm1)" and "fid \<in> free_set bm1"
    by (auto simp: holding_def)
  then show free: "page (frames bm1 ! fid) = None"
    by (simp add: free_set_def)
  obtain r1 d1 where rp: "read_page (on_read env) pid (disk bm1) = (r1, d1)"
    by (cases "read_page (on_read env) pid (disk bm1)")
  with rd have r1: "r1 = Inr None" by simp
  have gp: "get_page env pid bm =
      (Inr None, bm1\<lparr>disk := d1, free_frames := free_frames bm1 @ [fid]\<rparr>)"
    using miss ob [folded bm0_def] rp r1 nin
    by (simp add: get_page_def Let_def load_page_from_disk_def read_and_install_def
        bm0_def)
  show "fst (get_page env pid bm) = Inr None"
    and "free_frames (snd (get_page env pid bm)) = free_frames bm1 @ [fid]"
    and "frames (snd (get_page env pid bm)) = frames bm1"
    by (simp_all add: gp)
  from miss1 show "page_table (snd (get_page env pid bm)) pid = None"
    by (simp add: gp)
  from get_page_inv [OF inv fits gp] show "bm_inv (snd (get_page env pid bm))"
    by (simp add: gp)
qed

text \<open>
  C6 (the code departs from the claim). A pool of one frame under FIFO that holds page 0; the
  request for page \<open>2^51\<close> is a miss. The frame is obtained by evicting page 0, the read
  raises \<open>ValueError\<close>, and the frame is not returned to the free list: it holds no page and
  the free list is empty. From then on no request can obtain a frame, and the request for
  page 1, which the store holds, returns \<open>None\<close>.
\<close>

theorem failed_read_by_exception_keeps_frame:
  "(let bm1 = snd (get_page quiet 0 (new_BufferManager (zero_store 3) 1 ''FIFO''));
        run = get_page quiet (2 ^ 51) bm1;
        bm2 = snd run
    in page_table bm1 0 = Some 0 \<and> page_table bm1 (2 ^ 51) = None \<and> free_frames bm1 = [] \<and>
       fst run = Inl ValueError \<and>
       evictions bm2 = 1 \<and> map page (frames bm2) = [None] \<and> free_frames bm2 = [] \<and>
       page_table bm2 (2 ^ 51) = None \<and>
       fst (get_page quiet 1 bm2) = Inr None)"
  by (simp add: eval_defs read_page_2_51)

text \<open>
  The hit path of \<open>get_page\<close>: the frame of the page gets the incremented access counter as
  \<open>last_accessed\<close> and a set clock bit, the hit counter grows by one, the page of the frame
  is returned, and the disk manager is the one it was, whatever the I/O would do.
\<close>

lemma get_page_hit:
  assumes "page_table bm pid = Some fid" "fid < length (frames bm)"
  shows "get_page env pid bm =
           (Inr (page (frames bm ! fid)),
            bm\<lparr>access_counter := access_counter bm + 1,
               frames := (frames bm)[fid := (frames bm ! fid)
                            \<lparr>last_accessed := access_counter bm + 1,
                             access_frequency := access_frequency (frames bm ! fid) + 1,
                             clock_bit := True\<rparr>],
               hits := hits bm + 1\<rparr>)"
  using assms by (simp add: get_page_def Let_def)

lemma get_page_hit_disk:
  assumes "page_table bm pid = Some fid" "fid < length (frames bm)"
  shows "disk (snd (get_page env pid bm)) = disk bm"
  by (simp add: get_page_hit [OF assms])

text \<open>
  C7 (the code departs from the claim). A pool of two frames under CLOCK, both occupied and
  both with their clock bit set. The request for page 0 is a hit: it sets \<open>last_accessed\<close>
  of the frame of page 0 to the new access counter 5, counts a hit, returns the cached page
  and leaves the disk manager as it was. The request for page 2 is a miss that fails in
  \<open>_evict_clock\<close>: it clears the clock bits of both frames, and it too leaves the disk
  manager as it was, with the two reads of the first two requests and no other. So the hit
  path is not the only one that changes recency metadata without touching the disk.
\<close>

theorem clock_miss_changes_recency_without_disk:
  "(let bm = snd (get_pages [(quiet, 0), (quiet, 1), (quiet, 0), (quiet, 1)]
                 (new_BufferManager (zero_store 3) 2 ''CLOCK''));
        hit = get_page quiet 0 bm;
        miss = get_page quiet 2 bm
    in page_table bm 0 = Some 1 \<and> page_table bm 2 = None \<and>
       access_counter bm = 4 \<and> hits bm = 2 \<and> misses bm = 2 \<and>
       read_count (disk bm) = 2 \<and>
       map clock_bit (frames bm) = [True, True] \<and>
       fst hit = Inr (page (frames bm ! 1)) \<and>
       fst hit = Inr (Some \<lparr>DiskPage.page_id = 0, orders = []\<rparr>) \<and>
       last_accessed (frames (snd hit) ! 1) = 5 \<and> clock_bit (frames (snd hit) ! 1) \<and>
       hits (snd hit) = 3 \<and> misses (snd hit) = 2 \<and> disk (snd hit) = disk bm \<and>
       fst miss = Inr None \<and>
       hits (snd miss) = 2 \<and> misses (snd miss) = 3 \<and>
       map clock_bit (frames (snd miss)) = [False, False] \<and>
       map last_accessed (frames (snd miss)) = map last_accessed (frames bm) \<and>
       disk (snd miss) = disk bm \<and> read_count (disk (snd miss)) = 2)"
  by (simp add: eval_defs)

section \<open>Claims about the disk manager\<close>










section \<open>Claims about the user-aware buffer manager\<close>

text \<open>
  The eviction of step 5 never selects a victim: whatever the pool and the sessions, it
  returns \<open>None\<close> and leaves frames, page table and eviction counter as they were.
\<close>

lemma evict_user_aware_lru_None:
  "fst (evict_user_aware_lru now bm) = Inr None \<and>
   frames_ua (snd (evict_user_aware_lru now bm)) = frames_ua bm \<and>
   page_table_ua (snd (evict_user_aware_lru now bm)) = page_table_ua bm \<and>
   evictions_ua (snd (evict_user_aware_lru now bm)) = evictions_ua bm"
  by (simp add: evict_user_aware_lru_def update_active_status_def Let_def)

lemmas eval_ua = get_llm_page_def register_user_activity_def update_active_status_def
  load_llm_page_def get_free_frame_ua_def evict_page_ua_def evict_user_aware_lru_def
  install_llm_page_def ExtendedBufferFrame_load_llm_page_def new_LLMPage_def get_priority_def
  new_UserAwareBufferManager_def new_ExtendedBufferFrame_def mark_activity_def at_time_def
  Let_def upt_0_2

text \<open>
  C8 (the code departs from the claim). A pool of two frames. User a loads page 1 (session
  state, priority 20) at time 0; user b loads page 2 (user preferences, priority 100) 400
  seconds later and asks for page 3 one second after that. The pool is full, user a has been
  idle for more than the five minutes of the timeout and is inactive, user b is active: the
  victim of the claim is the frame of user a. The eviction selects no frame: the request
  returns \<open>None\<close>, nothing is evicted and both pages stay where they were.
\<close>

theorem user_aware_eviction_selects_no_victim:
  "(let bm2 = snd (get_llm_page (at_time 400000000) 2 ''b'' USER_PREFERENCES
                (snd (get_llm_page (at_time 0) 1 ''a'' SESSION_STATE
                   (new_UserAwareBufferManager (zero_store 3) 2))));
        now = 401000000;
        bm3 = snd (evict_user_aware_lru now bm2);
        run = get_llm_page (at_time now) 3 ''b'' USER_PREFERENCES bm2
    in free_frames_ua bm2 = [] \<and>
       map user_id_x (frames_ua bm2) = [Some ''b'', Some ''a''] \<and>
       map priority_x (frames_ua bm2) = [100, 20] \<and>
       map last_accessed_x (frames_ua bm2) = [400000000, 0] \<and>
       map_option is_active (user_sessions bm3 ''a'') = Some False \<and>
       map_option is_active (user_sessions bm3 ''b'') = Some True \<and>
       fst (evict_user_aware_lru now bm2) = Inr None \<and>
       evictions_ua bm3 = 0 \<and>
       fst run = Inr None \<and>
       evictions_ua (snd run) = 0 \<and> misses_ua (snd run) = 3 \<and>
       page_table_ua (snd run) 1 = Some 1 \<and> page_table_ua (snd run) 2 = Some 0 \<and>
       page_table_ua (snd run) 3 = None \<and>
       map page_id_x (frames_ua (snd run)) = [Some 2, Some 1])"
  by (simp add: eval_ua)

end
